theory Spec2Isabelle
  imports Complex_Main "HOL-Library.Word"
begin

section \<open>The Stream Deck protocol layer (models/base.ts)\<close>

text \<open>
  A shallow embedding of the abstract class \<open>StreamDeckBase\<close>. JavaScript numbers are
  modelled as \<open>int\<close> (the integral values; fractions, NaN and the infinities are outside
  the model), a Node \<open>Buffer\<close> as a list of 8-bit words, a \<open>number[]\<close> as an \<open>int list\<close>.
  Every \<open>throw\<close> of the source and every exception of a Buffer method is a value of
  \<open>error\<close>. Each operation is run to completion on its own: the model is sequential and
  says nothing about interleavings of pending promises. \<open>KeyIndex\<close> of \<open>./id\<close> is a
  number. The listeners the constructor registers on the device are the function
  \<open>onInput\<close> for the \<open>input\<close> event; the \<open>error\<close> event is passed on unchanged and
  is not modelled.
\<close>

subsection \<open>Errors and results\<close>

datatype error =
    InvalidKeyIndex      \<comment> \<open>\<open>TypeError\<close> of \<open>checkValidKeyIndex\<close>\<close>
  | InvalidRGBValue      \<comment> \<open>\<open>TypeError\<close> of \<open>checkRGBValue\<close>\<close>
  | InvalidImageLength   \<comment> \<open>\<open>RangeError\<close> of \<open>fillImage\<close> and \<open>fillPanel\<close>\<close>
  | InvalidBrightness    \<comment> \<open>\<open>RangeError\<close> of \<open>setBrightness\<close>\<close>
  | InvalidArrayLength   \<comment> \<open>\<open>RangeError\<close> of \<open>new Array(n)\<close> with \<open>n < 0\<close>\<close>
  | BufferOutOfRange     \<comment> \<open>\<open>RangeError\<close> raised by a method of Node's \<open>Buffer\<close>\<close>
  | EncodingError        \<comment> \<open>the promise of \<open>convertFillImage\<close> rejects\<close>
  | TransportError       \<comment> \<open>a promise of the HID device rejects\<close>

text \<open>The errors the specification calls ValidationError: the ones thrown by the class's
  own argument checks.\<close>

fun isValidationError :: "error \<Rightarrow> bool" where
  "isValidationError InvalidKeyIndex = True"
| "isValidationError InvalidRGBValue = True"
| "isValidationError InvalidImageLength = True"
| "isValidationError InvalidBrightness = True"
| "isValidationError InvalidArrayLength = False"
| "isValidationError BufferOutOfRange = False"
| "isValidationError EncodingError = False"
| "isValidationError TransportError = False"

text \<open>How a call ends: a synchronous \<open>throw\<close> before a promise exists, or a promise that
  is rejected or resolved. An \<open>async\<close> function never ends in \<open>Thrown\<close>.\<close>

datatype 'a completion = Thrown error | Rejected error | Resolved 'a

subsection \<open>Node's Buffer\<close>

type_synonym byte = "8 word"
type_synonym Buffer = "byte list"

text \<open>\<open>Buffer.alloc(size)\<close>: zero-filled; a negative size is a \<open>RangeError\<close>. (The upper
  limit \<open>kMaxLength\<close> of the platform is not modelled.)\<close>

definition Buffer_alloc :: "int \<Rightarrow> error + Buffer" where
  "Buffer_alloc sz =
     (if sz < 0 then Inl BufferOutOfRange else Inr (replicate (nat sz) 0))"

text \<open>\<open>Buffer.from(numbers)\<close>: each entry is stored modulo 256.\<close>

definition Buffer_from :: "int list \<Rightarrow> Buffer" where
  "Buffer_from xs = map word_of_int xs"

text \<open>\<open>Buffer.alloc(size, fill)\<close> with a non-empty Buffer as \<open>fill\<close>: the pattern is
  repeated over the whole length.\<close>

definition Buffer_alloc_fill :: "int \<Rightarrow> Buffer \<Rightarrow> error + Buffer" where
  "Buffer_alloc_fill sz pat =
     (if sz < 0 then Inl BufferOutOfRange
      else Inr (map (\<lambda>i. pat ! (i mod length pat)) [0..<nat sz]))"

text \<open>\<open>buf.writeUInt8(value, offset)\<close>: the value must be in \<open>[0, 255]\<close> and the offset
  inside the buffer, otherwise a \<open>RangeError\<close>.\<close>

definition writeUInt8 :: "Buffer \<Rightarrow> int \<Rightarrow> int \<Rightarrow> error + Buffer" where
  "writeUInt8 buf v offset =
     (if v < 0 \<or> v > 255 then Inl BufferOutOfRange
      else if offset < 0 \<or> offset \<ge> int (length buf) then Inl BufferOutOfRange
      else Inr (buf[nat offset := word_of_int v]))"

text \<open>\<open>buf.writeUInt16LE(value, offset)\<close>: the value must be in \<open>[0, 65535]\<close> and both
  bytes inside the buffer; the low byte is stored first.\<close>

definition writeUInt16LE :: "Buffer \<Rightarrow> int \<Rightarrow> int \<Rightarrow> error + Buffer" where
  "writeUInt16LE buf v offset =
     (if v < 0 \<or> v > 65535 then Inl BufferOutOfRange
      else if offset < 0 \<or> offset + 1 \<ge> int (length buf) then Inl BufferOutOfRange
      else Inr (buf[nat offset := word_of_int v, nat offset + 1 := word_of_int (v div 256)]))"

text \<open>\<open>source.copy(target, targetStart, sourceStart, sourceEnd)\<close>, returning the target
  after the copy: negative positions are a \<open>RangeError\<close>; nothing is copied when the
  target start is past the target or the source range is empty; otherwise the range is
  clipped to what the target and the source hold.\<close>

definition Buffer_copy :: "Buffer \<Rightarrow> Buffer \<Rightarrow> int \<Rightarrow> int \<Rightarrow> int \<Rightarrow> error + Buffer" where
  "Buffer_copy source target targetStart sourceStart sourceEnd =
     (if targetStart < 0 \<or> sourceStart < 0 \<or> sourceEnd < 0 then Inl BufferOutOfRange
      else if targetStart \<ge> int (length target) \<or> sourceStart \<ge> sourceEnd then Inr target
      else if sourceStart > int (length source) then Inl BufferOutOfRange
      else
        (let nb = min (min (sourceEnd - sourceStart) (int (length target) - targetStart))
                      (int (length source) - sourceStart)
         in Inr (take (nat targetStart) target
                 @ take (nat nb) (drop (nat sourceStart) source)
                 @ drop (nat targetStart + nat nb) target)))"

text \<open>Modelled from the spec: \<open>bufferToIntArray\<close> of \<open>../util\<close>, which is not among the
  sources. The specification takes the packet handed to the transport to be the byte
  array itself, so the helper lists the bytes of the buffer as numbers, in order.\<close>

definition bufferToIntArray :: "Buffer \<Rightarrow> int list" where
  "bufferToIntArray buf = map uint buf"

subsection \<open>The model descriptor and the abstract members\<close>

text \<open>Modelled from the spec: \<open>DeviceModelId\<close> of \<open>../models\<close>, which is not among the
  sources: one identifier for each model class the package exports. No operation of the
  class reads it.\<close>

datatype DeviceModelId = ORIGINAL | ORIGINALV2 | MINI | XL

datatype direction = ltr | rtl

record StreamDeckProperties =
  MODEL :: DeviceModelId
  COLUMNS :: int
  ROWS :: int
  ICON_SIZE :: int
  KEY_DIRECTION :: direction

text \<open>The calls the class makes on its HID device, the external collaborator.\<close>

datatype hid_call =
    SendReport "int list"
  | SendFeatureReport "int list"
  | GetFeatureReport int int
  | Close

text \<open>
  What a concrete model supplies: the properties handed to the constructor, the three
  abstract methods, and the collaborators the class only calls. The device is described by
  whether it accepts a call after the calls made so far, and by what it answers to a
  feature-report request; \<open>numberArrayToString\<close> is the helper of \<open>../util\<close>.
\<close>

record StreamDeckModel =
  deviceProperties :: StreamDeckProperties
  transformKeyIndex :: "int \<Rightarrow> int"
  convertFillImage :: "Buffer \<Rightarrow> int \<Rightarrow> int \<Rightarrow> Buffer option"
  getFillImagePacketLength :: int
  device_accepts :: "hid_call list \<Rightarrow> hid_call \<Rightarrow> bool"
  device_feature :: "hid_call list \<Rightarrow> int \<Rightarrow> int \<Rightarrow> int list"
  numberArrayToString :: "int list \<Rightarrow> string"

definition KEY_COLUMNS :: "StreamDeckModel \<Rightarrow> int" where
  "KEY_COLUMNS m = COLUMNS (deviceProperties m)"

definition KEY_ROWS :: "StreamDeckModel \<Rightarrow> int" where
  "KEY_ROWS m = ROWS (deviceProperties m)"

definition NUM_KEYS :: "StreamDeckModel \<Rightarrow> int" where
  "NUM_KEYS m = KEY_COLUMNS m * KEY_ROWS m"

definition get_ICON_SIZE :: "StreamDeckModel \<Rightarrow> int" where
  "get_ICON_SIZE m = ICON_SIZE (deviceProperties m)"

definition ICON_BYTES :: "StreamDeckModel \<Rightarrow> int" where
  "ICON_BYTES m = get_ICON_SIZE m * get_ICON_SIZE m * 3"

definition get_MODEL :: "StreamDeckModel \<Rightarrow> DeviceModelId" where
  "get_MODEL m = MODEL (deviceProperties m)"

subsection \<open>Framing an image into packets\<close>

definition getFillImageCommandHeaderLength :: int where
  "getFillImageCommandHeaderLength = 16"

text \<open>\<open>writeFillImageCommandHeader\<close> writes into the packet it is given; the model returns
  the packet after the four writes, or the first exception. The body length is unused.\<close>

definition writeFillImageCommandHeader ::
  "Buffer \<Rightarrow> int \<Rightarrow> int \<Rightarrow> bool \<Rightarrow> int \<Rightarrow> error + Buffer" where
  "writeFillImageCommandHeader buffer keyIndex partIndex isLast bodyLength =
     (case writeUInt8 buffer 0x02 0 of Inl e \<Rightarrow> Inl e | Inr b1 \<Rightarrow>
     (case writeUInt8 b1 0x01 1 of Inl e \<Rightarrow> Inl e | Inr b2 \<Rightarrow>
     (case writeUInt16LE b2 partIndex 2 of Inl e \<Rightarrow> Inl e | Inr b3 \<Rightarrow>
     (case writeUInt8 b3 (if isLast then 1 else 0) 4 of Inl e \<Rightarrow> Inl e | Inr b4 \<Rightarrow>
      writeUInt8 b4 (keyIndex + 1) 5))))"

definition MAX_PAYLOAD_SIZE :: "StreamDeckModel \<Rightarrow> int" where
  "MAX_PAYLOAD_SIZE m = getFillImagePacketLength m - getFillImageCommandHeaderLength"

text \<open>The loop of \<open>generateFillImageWrites\<close>, with its variables \<open>part\<close>,
  \<open>remainingBytes\<close> and \<open>result\<close> as arguments. It ends on every input: a part index
  past 65535 is refused by \<open>writeUInt16LE\<close>, which is the measure of the termination
  proof.\<close>

function generateFillImageWrites_loop ::
  "StreamDeckModel \<Rightarrow> int \<Rightarrow> Buffer \<Rightarrow> int \<Rightarrow> int \<Rightarrow> int list list \<Rightarrow> error + int list list" where
  "generateFillImageWrites_loop m keyIndex byteBuffer part remainingBytes result =
     (if remainingBytes > 0 then
        (case Buffer_alloc (getFillImagePacketLength m) of Inl e \<Rightarrow> Inl e | Inr packet \<Rightarrow>
         (let byteCount = min remainingBytes (MAX_PAYLOAD_SIZE m) in
          (case writeFillImageCommandHeader packet keyIndex part
                  (remainingBytes \<le> MAX_PAYLOAD_SIZE m) byteCount of
             Inl e \<Rightarrow> Inl e
           | Inr packet1 \<Rightarrow>
              (let byteOffset = int (length byteBuffer) - remainingBytes in
               (case Buffer_copy byteBuffer packet1 getFillImageCommandHeaderLength
                       byteOffset (byteOffset + byteCount) of
                  Inl e \<Rightarrow> Inl e
                | Inr packet2 \<Rightarrow>
                    generateFillImageWrites_loop m keyIndex byteBuffer (part + 1)
                      (remainingBytes - byteCount) (result @ [bufferToIntArray packet2]))))))
      else Inr result)"
  by pat_completeness auto
termination
  by (relation "measure (\<lambda>(m, keyIndex, byteBuffer, part, remainingBytes, result).
                   nat (65536 - part))")
     (auto simp: writeFillImageCommandHeader_def writeUInt16LE_def
           split: sum.splits if_splits)

declare generateFillImageWrites_loop.simps [simp del]

definition generateFillImageWrites ::
  "StreamDeckModel \<Rightarrow> int \<Rightarrow> Buffer \<Rightarrow> error + int list list" where
  "generateFillImageWrites m keyIndex byteBuffer =
     generateFillImageWrites_loop m keyIndex byteBuffer 0 (int (length byteBuffer)) []"

subsection \<open>The state of a deck\<close>

text \<open>
  The mutable part of a \<open>StreamDeckBase\<close> object and of its device. \<open>keyState\<close> is the
  JavaScript array as a map from index to element (\<open>None\<close> is \<open>undefined\<close>); an array of
  length \<open>n\<close> filled with \<open>false\<close> is the map that is \<open>Some False\<close> exactly on
  \<open>0, \<dots>, n - 1\<close>. \<open>deviceCalls\<close> lists the calls issued on the device so far, in order.
  \<open>fillCalls\<close> is a trace kept for the proofs: the arguments \<open>(keyIndex, sourceOffset,
  sourceStride)\<close> of every call of \<open>fillImageRange\<close>, in order.
\<close>

record StreamDeckState =
  keyState :: "int \<rightharpoonup> bool"
  dataKeyOffset :: int
  deviceCalls :: "hid_call list"
  fillCalls :: "(int \<times> int \<times> int) list"

datatype key_event = down int | up int

text \<open>The constructor: \<open>new Array(NUM_KEYS)\<close> refuses a negative length.\<close>

definition StreamDeckBase_new :: "StreamDeckModel \<Rightarrow> int \<Rightarrow> error + StreamDeckState" where
  "StreamDeckBase_new m offset =
     (if NUM_KEYS m < 0 then Inl InvalidArrayLength
      else Inr \<lparr> keyState = (\<lambda>k. if 0 \<le> k \<and> k < NUM_KEYS m then Some False else None),
                 dataKeyOffset = offset,
                 deviceCalls = [],
                 fillCalls = [] \<rparr>)"

subsection \<open>The input handler (the button state tracker)\<close>

text \<open>\<open>Boolean(data[i])\<close>: a slot the report does not have is \<open>undefined\<close>, hence false.\<close>

definition keyPressed_at :: "int list \<Rightarrow> int \<Rightarrow> bool" where
  "keyPressed_at data i = (0 \<le> i \<and> i < int (length data) \<and> data ! nat i \<noteq> 0)"

function input_loop ::
  "StreamDeckModel \<Rightarrow> int list \<Rightarrow> int \<Rightarrow> (int \<rightharpoonup> bool) \<Rightarrow> key_event list
   \<Rightarrow> (int \<rightharpoonup> bool) \<times> key_event list" where
  "input_loop m data i ks emitted =
     (if i < NUM_KEYS m then
        (let keyPressed = keyPressed_at data i;
             keyIndex = transformKeyIndex m i;
             stateChanged = (Some keyPressed \<noteq> ks keyIndex)
         in if stateChanged then
              input_loop m data (i + 1) (ks(keyIndex \<mapsto> keyPressed))
                (emitted @ [if keyPressed then down keyIndex else up keyIndex])
            else input_loop m data (i + 1) ks emitted)
      else (ks, emitted))"
  by pat_completeness auto
termination
  by (relation "measure (\<lambda>(m, data, i, ks, emitted). nat (NUM_KEYS m - i))") auto

declare input_loop.simps [simp del]

text \<open>The listener on the device's \<open>input\<close> event: the events it emits, in order, and
  the state afterwards.\<close>

definition onInput :: "StreamDeckModel \<Rightarrow> StreamDeckState \<Rightarrow> int list
                       \<Rightarrow> key_event list \<times> StreamDeckState" where
  "onInput m s data =
     (case input_loop m data 0 (keyState s) [] of
        (ks, emitted) \<Rightarrow> (emitted, s\<lparr>keyState := ks\<rparr>))"

subsection \<open>Calls on the device\<close>

definition device_call ::
  "StreamDeckModel \<Rightarrow> StreamDeckState \<Rightarrow> hid_call \<Rightarrow> (error + unit) \<times> StreamDeckState" where
  "device_call m s c =
     ((if device_accepts m (deviceCalls s) c then Inr () else Inl TransportError),
      s\<lparr>deviceCalls := deviceCalls s @ [c]\<rparr>)"

definition close :: "StreamDeckModel \<Rightarrow> StreamDeckState \<Rightarrow> unit completion \<times> StreamDeckState" where
  "close m s =
     (case device_call m s Close of
        (Inl e, s') \<Rightarrow> (Rejected e, s')
      | (Inr u, s') \<Rightarrow> (Resolved (), s'))"

subsection \<open>Argument checks\<close>

definition checkValidKeyIndex :: "StreamDeckModel \<Rightarrow> int \<Rightarrow> error + unit" where
  "checkValidKeyIndex m keyIndex =
     (if keyIndex < 0 \<or> keyIndex \<ge> NUM_KEYS m then Inl InvalidKeyIndex else Inr ())"

definition checkRGBValue :: "int \<Rightarrow> error + unit" where
  "checkRGBValue v = (if v < 0 \<or> v > 255 then Inl InvalidRGBValue else Inr ())"

subsection \<open>Filling keys\<close>

text \<open>The loop \<open>for (const packet of packets) await this.device.sendReport(packet)\<close>: the
  first rejected send ends it.\<close>

fun sendPackets ::
  "StreamDeckModel \<Rightarrow> StreamDeckState \<Rightarrow> int list list \<Rightarrow> unit completion \<times> StreamDeckState" where
  "sendPackets m s [] = (Resolved (), s)"
| "sendPackets m s (packet # packets) =
     (case device_call m s (SendReport packet) of
        (Inl e, s') \<Rightarrow> (Rejected e, s')
      | (Inr u, s') \<Rightarrow> sendPackets m s' packets)"

definition fillImageRange ::
  "StreamDeckModel \<Rightarrow> StreamDeckState \<Rightarrow> int \<Rightarrow> Buffer \<Rightarrow> int \<Rightarrow> int
   \<Rightarrow> unit completion \<times> StreamDeckState" where
  "fillImageRange m s keyIndex imageBuffer sourceOffset sourceStride =
     (let s0 = s\<lparr>fillCalls := fillCalls s @ [(keyIndex, sourceOffset, sourceStride)]\<rparr> in
      (case checkValidKeyIndex m keyIndex of Inl e \<Rightarrow> (Rejected e, s0) | Inr u \<Rightarrow>
      (case convertFillImage m imageBuffer sourceOffset sourceStride of
         None \<Rightarrow> (Rejected EncodingError, s0)
       | Some byteBuffer \<Rightarrow>
          (case generateFillImageWrites m keyIndex byteBuffer of
             Inl e \<Rightarrow> (Rejected e, s0)
           | Inr packets \<Rightarrow> sendPackets m s0 packets))))"

definition fillColor ::
  "StreamDeckModel \<Rightarrow> StreamDeckState \<Rightarrow> int \<Rightarrow> int \<Rightarrow> int \<Rightarrow> int
   \<Rightarrow> unit completion \<times> StreamDeckState" where
  "fillColor m s keyIndex r g b =
     (case checkValidKeyIndex m keyIndex of Inl e \<Rightarrow> (Thrown e, s) | Inr u \<Rightarrow>
     (case checkRGBValue r of Inl e \<Rightarrow> (Thrown e, s) | Inr u \<Rightarrow>
     (case checkRGBValue g of Inl e \<Rightarrow> (Thrown e, s) | Inr u \<Rightarrow>
     (case checkRGBValue b of Inl e \<Rightarrow> (Thrown e, s) | Inr u \<Rightarrow>
     (case Buffer_alloc_fill (ICON_BYTES m) (Buffer_from [r, g, b]) of
        Inl e \<Rightarrow> (Thrown e, s)
      | Inr pixels \<Rightarrow>
          (let keyIndex2 = transformKeyIndex m keyIndex
           in fillImageRange m s keyIndex2 pixels 0 (get_ICON_SIZE m * 3)))))))"

definition fillImage ::
  "StreamDeckModel \<Rightarrow> StreamDeckState \<Rightarrow> int \<Rightarrow> Buffer \<Rightarrow> unit completion \<times> StreamDeckState" where
  "fillImage m s keyIndex imageBuffer =
     (case checkValidKeyIndex m keyIndex of Inl e \<Rightarrow> (Thrown e, s) | Inr u \<Rightarrow>
      if int (length imageBuffer) \<noteq> ICON_BYTES m then (Thrown InvalidImageLength, s)
      else (let keyIndex2 = transformKeyIndex m keyIndex
            in fillImageRange m s keyIndex2 imageBuffer 0 (get_ICON_SIZE m * 3)))"

text \<open>The two loops of \<open>fillPanel\<close>, the inner one over the columns of a row. An awaited
  fill that fails rejects the promise of \<open>fillPanel\<close> and ends both loops.\<close>

function fillPanel_columns ::
  "StreamDeckModel \<Rightarrow> StreamDeckState \<Rightarrow> Buffer \<Rightarrow> int \<Rightarrow> int
   \<Rightarrow> unit completion \<times> StreamDeckState" where
  "fillPanel_columns m s imageBuffer row column =
     (if column < KEY_COLUMNS m then
        (let index0 = row * KEY_COLUMNS m;
             index = (if KEY_DIRECTION (deviceProperties m) = ltr then index0 + column
                      else index0 + (KEY_COLUMNS m - column - 1));
             stride = get_ICON_SIZE m * 3 * KEY_COLUMNS m;
             rowOffset = stride * row * get_ICON_SIZE m;
             colOffset = column * get_ICON_SIZE m * 3
         in (case fillImageRange m s index imageBuffer (rowOffset + colOffset) stride of
               (Resolved u, s') \<Rightarrow> fillPanel_columns m s' imageBuffer row (column + 1)
             | (Rejected e, s') \<Rightarrow> (Rejected e, s')
             | (Thrown e, s') \<Rightarrow> (Rejected e, s')))
      else (Resolved (), s))"
  by pat_completeness auto
termination
  by (relation "measure (\<lambda>(m, s, imageBuffer, row, column). nat (KEY_COLUMNS m - column))")
     auto

declare fillPanel_columns.simps [simp del]

function fillPanel_rows ::
  "StreamDeckModel \<Rightarrow> StreamDeckState \<Rightarrow> Buffer \<Rightarrow> int \<Rightarrow> unit completion \<times> StreamDeckState" where
  "fillPanel_rows m s imageBuffer row =
     (if row < KEY_ROWS m then
        (case fillPanel_columns m s imageBuffer row 0 of
           (Resolved u, s') \<Rightarrow> fillPanel_rows m s' imageBuffer (row + 1)
         | (Rejected e, s') \<Rightarrow> (Rejected e, s')
         | (Thrown e, s') \<Rightarrow> (Rejected e, s'))
      else (Resolved (), s))"
  by pat_completeness auto
termination
  by (relation "measure (\<lambda>(m, s, imageBuffer, row). nat (KEY_ROWS m - row))") auto

declare fillPanel_rows.simps [simp del]

definition fillPanel ::
  "StreamDeckModel \<Rightarrow> StreamDeckState \<Rightarrow> Buffer \<Rightarrow> unit completion \<times> StreamDeckState" where
  "fillPanel m s imageBuffer =
     (if int (length imageBuffer) \<noteq> ICON_BYTES m * NUM_KEYS m
      then (Rejected InvalidImageLength, s)
      else fillPanel_rows m s imageBuffer 0)"

definition clearKey ::
  "StreamDeckModel \<Rightarrow> StreamDeckState \<Rightarrow> int \<Rightarrow> unit completion \<times> StreamDeckState" where
  "clearKey m s keyIndex =
     (case checkValidKeyIndex m keyIndex of Inl e \<Rightarrow> (Thrown e, s) | Inr u \<Rightarrow>
      fillColor m s keyIndex 0 0 0)"

function clearAllKeys_loop ::
  "StreamDeckModel \<Rightarrow> StreamDeckState \<Rightarrow> int \<Rightarrow> unit completion \<times> StreamDeckState" where
  "clearAllKeys_loop m s keyIndex =
     (if keyIndex < NUM_KEYS m then
        (case clearKey m s keyIndex of
           (Resolved u, s') \<Rightarrow> clearAllKeys_loop m s' (keyIndex + 1)
         | (Rejected e, s') \<Rightarrow> (Rejected e, s')
         | (Thrown e, s') \<Rightarrow> (Rejected e, s'))
      else (Resolved (), s))"
  by pat_completeness auto
termination
  by (relation "measure (\<lambda>(m, s, keyIndex). nat (NUM_KEYS m - keyIndex))") auto

declare clearAllKeys_loop.simps [simp del]

definition clearAllKeys ::
  "StreamDeckModel \<Rightarrow> StreamDeckState \<Rightarrow> unit completion \<times> StreamDeckState" where
  "clearAllKeys m s = clearAllKeys_loop m s 0"

subsection \<open>Device control\<close>

definition setBrightness ::
  "StreamDeckModel \<Rightarrow> StreamDeckState \<Rightarrow> int \<Rightarrow> unit completion \<times> StreamDeckState" where
  "setBrightness m s percentage =
     (if percentage < 0 \<or> percentage > 100 then (Rejected InvalidBrightness, s)
      else
        (let brightnessCommandBuffer =
               [0x05,
                0x55, 0xaa, 0xd1, 0x01, percentage, 0x00, 0x00, 0x00,
                0x00, 0x00, 0x00, 0x00, 0x00, 0x00, 0x00, 0x00]
         in (case device_call m s (SendFeatureReport brightnessCommandBuffer) of
               (Inl e, s') \<Rightarrow> (Rejected e, s')
             | (Inr u, s') \<Rightarrow> (Resolved (), s'))))"

definition resetToLogo ::
  "StreamDeckModel \<Rightarrow> StreamDeckState \<Rightarrow> unit completion \<times> StreamDeckState" where
  "resetToLogo m s =
     (let resetCommandBuffer =
            [0x0b,
             0x63, 0x00, 0x00, 0x00, 0x00, 0x00, 0x00, 0x00,
             0x00, 0x00, 0x00, 0x00, 0x00, 0x00, 0x00, 0x00]
      in (case device_call m s (SendFeatureReport resetCommandBuffer) of
            (Inl e, s') \<Rightarrow> (Rejected e, s')
          | (Inr u, s') \<Rightarrow> (Resolved (), s')))"

text \<open>\<open>this.device.getFeatureReport(id, length)\<close>: the answer of the device when it
  accepts the request.\<close>

definition getFeatureReport ::
  "StreamDeckModel \<Rightarrow> StreamDeckState \<Rightarrow> int \<Rightarrow> int \<Rightarrow> (error + int list) \<times> StreamDeckState" where
  "getFeatureReport m s reportId len =
     (case device_call m s (GetFeatureReport reportId len) of
        (Inl e, s') \<Rightarrow> (Inl e, s')
      | (Inr u, s') \<Rightarrow> (Inr (device_feature m (deviceCalls s) reportId len), s'))"

definition getFirmwareVersion ::
  "StreamDeckModel \<Rightarrow> StreamDeckState \<Rightarrow> string completion \<times> StreamDeckState" where
  "getFirmwareVersion m s =
     (case getFeatureReport m s 4 17 of
        (Inl e, s') \<Rightarrow> (Rejected e, s')
      | (Inr val, s') \<Rightarrow> (Resolved (numberArrayToString m (drop 5 val)), s'))"

definition getSerialNumber ::
  "StreamDeckModel \<Rightarrow> StreamDeckState \<Rightarrow> string completion \<times> StreamDeckState" where
  "getSerialNumber m s =
     (case getFeatureReport m s 3 17 of
        (Inl e, s') \<Rightarrow> (Rejected e, s')
      | (Inr val, s') \<Rightarrow> (Resolved (numberArrayToString m (drop 5 val)), s'))"

section \<open>What the claims are stated against\<close>

subsection \<open>The packets the specification describes\<close>

text \<open>
  The packet of the specification, written from its words: the six header bytes (tag
  bytes \<open>0x02\<close> and \<open>0x01\<close>, the part index as two little-endian bytes, the last flag, the
  one-based key index), ten zero bytes up to the header length of 16, the chunk of image
  bytes, and zeros up to the payload capacity \<open>P\<close>. \<open>framedPackets\<close> cuts the image
  bytes into chunks of \<open>P\<close> bytes, numbers them from \<open>part\<close>, and flags the last one.
\<close>

definition framedPacket :: "nat \<Rightarrow> int \<Rightarrow> int \<Rightarrow> bool \<Rightarrow> Buffer \<Rightarrow> int list" where
  "framedPacket P keyIndex part isLast chunk =
     [2, 1, part mod 256, part div 256, (if isLast then 1 else 0), keyIndex + 1]
     @ replicate 10 0 @ map uint chunk @ replicate (P - length chunk) 0"

function framedPackets :: "nat \<Rightarrow> int \<Rightarrow> int \<Rightarrow> Buffer \<Rightarrow> int list list" where
  "framedPackets P keyIndex part bytes =
     (if bytes = [] \<or> P = 0 then []
      else framedPacket P keyIndex part (length bytes \<le> P) (take P bytes)
           # framedPackets P keyIndex (part + 1) (drop P bytes))"
  by pat_completeness auto
termination
  by (relation "measure (\<lambda>(P, keyIndex, part, bytes). length bytes)") auto

declare framedPackets.simps [simp del]

subsection \<open>A small model for concrete runs\<close>

text \<open>
  A deck of three columns and two rows with icons of one pixel, laid out right to left,
  with packets of 18 bytes (a payload capacity of 2). Its encoder cuts the three bytes of
  the pixel at the source offset out of the image, its key transform mirrors the column
  within the row, and its device accepts every call.
\<close>

definition demo_properties :: StreamDeckProperties where
  "demo_properties =
     \<lparr> MODEL = MINI, COLUMNS = 3, ROWS = 2, ICON_SIZE = 1, KEY_DIRECTION = rtl \<rparr>"

definition demo_model :: StreamDeckModel where
  "demo_model =
     \<lparr> deviceProperties = demo_properties,
       transformKeyIndex = (\<lambda>k. (k div 3) * 3 + (2 - k mod 3)),
       convertFillImage = (\<lambda>imageBuffer sourceOffset sourceStride.
          Some (take 3 (drop (nat sourceOffset) imageBuffer))),
       getFillImagePacketLength = 18,
       device_accepts = (\<lambda>calls c. True),
       device_feature = (\<lambda>calls reportId len. replicate (nat len) 0),
       numberArrayToString = (\<lambda>xs. []) \<rparr>"

definition demo_state :: StreamDeckState where
  "demo_state =
     \<lparr> keyState = (\<lambda>k. if 0 \<le> k \<and> k < 6 then Some False else None),
       dataKeyOffset = 0,
       deviceCalls = [],
       fillCalls = [] \<rparr>"

subsection \<open>Validation errors\<close>

text \<open>What the claims about validation observe in the result of a call: a synchronous
  throw of a validation error with no call made on the device, and a validation error
  raised at all, thrown or delivered through the promise.\<close>

definition throwsValidationError :: "'a completion \<times> StreamDeckState \<Rightarrow> StreamDeckState \<Rightarrow> bool" where
  "throwsValidationError r s =
     (case fst r of
        Thrown e \<Rightarrow> isValidationError e \<and> deviceCalls (snd r) = deviceCalls s
      | Rejected e \<Rightarrow> False
      | Resolved v \<Rightarrow> False)"

definition raisesValidationError :: "'a completion \<times> StreamDeckState \<Rightarrow> bool" where
  "raisesValidationError r =
     (case fst r of
        Thrown e \<Rightarrow> isValidationError e
      | Rejected e \<Rightarrow> isValidationError e
      | Resolved v \<Rightarrow> False)"

subsection \<open>The fills of a panel\<close>

text \<open>The fills the specification expects of \<open>fillPanel\<close>, written from its words: the
  key index of a grid cell by the layout direction, the byte offset of the cell in the
  panel image, the row pitch, and the cells in row-major order. \<open>runFills\<close> issues a list
  of fills one after the other and stops at the first that fails.\<close>

definition panelStride :: "StreamDeckModel \<Rightarrow> int" where
  "panelStride m = get_ICON_SIZE m * 3 * KEY_COLUMNS m"

definition panelKeyIndex :: "StreamDeckModel \<Rightarrow> int \<Rightarrow> int \<Rightarrow> int" where
  "panelKeyIndex m row col =
     (if KEY_DIRECTION (deviceProperties m) = ltr then row * KEY_COLUMNS m + col
      else row * KEY_COLUMNS m + (KEY_COLUMNS m - 1 - col))"

definition panelOffset :: "StreamDeckModel \<Rightarrow> int \<Rightarrow> int \<Rightarrow> int" where
  "panelOffset m row col = row * panelStride m * get_ICON_SIZE m + col * get_ICON_SIZE m * 3"

definition panelCell :: "StreamDeckModel \<Rightarrow> int \<Rightarrow> int \<Rightarrow> int \<times> int \<times> int" where
  "panelCell m row col = (panelKeyIndex m row col, panelOffset m row col, panelStride m)"

definition expectedPanelFills :: "StreamDeckModel \<Rightarrow> (int \<times> int \<times> int) list" where
  "expectedPanelFills m =
     concat (map (\<lambda>row. map (panelCell m row) [0..KEY_COLUMNS m - 1]) [0..KEY_ROWS m - 1])"

fun runFills ::
  "StreamDeckModel \<Rightarrow> StreamDeckState \<Rightarrow> Buffer \<Rightarrow> (int \<times> int \<times> int) list
   \<Rightarrow> unit completion \<times> StreamDeckState" where
  "runFills m s imageBuffer [] = (Resolved (), s)"
| "runFills m s imageBuffer ((keyIndex, sourceOffset, sourceStride) # fills) =
     (case fillImageRange m s keyIndex imageBuffer sourceOffset sourceStride of
        (Resolved u, s') \<Rightarrow> runFills m s' imageBuffer fills
      | (Rejected e, s') \<Rightarrow> (Rejected e, s')
      | (Thrown e, s') \<Rightarrow> (Rejected e, s'))"

section \<open>Properties of the packet framer\<close>

subsection \<open>One packet of the loop\<close>

lemma six_cons: "6 \<le> length (xs::'a list) \<Longrightarrow> \<exists>a b c d e f r. xs = a#b#c#d#e#f#r"
  by (simp add: numeral_eq_Suc Suc_le_length_iff) blast

lemma writeFillImageCommandHeader_ok:
 assumes "0 \<le> part" "part \<le> 65535" "0 \<le> key + 1" "key + 1 \<le> 255" "6 \<le> length buffer"
 shows "writeFillImageCommandHeader buffer key part isLast n = Inr ([2, 1, word_of_int part, word_of_int (part div 256), (if isLast then 1 else 0), word_of_int (key+1)] @ drop 6 buffer)"
proof -
  from six_cons[OF assms(5)] obtain a b c d e f r where "buffer = a#b#c#d#e#f#r" by blast
  with assms show ?thesis
    by (simp add: writeFillImageCommandHeader_def writeUInt8_def writeUInt16LE_def)
qed


lemma Buffer_copy_ok:
  assumes "0 < cnt" "off + cnt \<le> length source" "t + cnt \<le> length target"
  shows "Buffer_copy source target (int t) (int off) (int off + int cnt)
         = Inr (take t target @ take cnt (drop off source) @ drop (t + cnt) target)"
  using assms by (simp add: Buffer_copy_def Let_def min_def)

lemma uint_byte: "0 \<le> v \<Longrightarrow> v \<le> 255 \<Longrightarrow> uint (word_of_int v :: byte) = v"
  by (simp add: uint_word_of_int)

lemma Buffer_copy_payload:
  assumes "length h = 6" "0 < cnt" "cnt \<le> P" "off + cnt \<le> length bytes"
  shows "Buffer_copy bytes (h @ replicate (P + 10) 0) 16 (int off) (int off + int cnt)
         = Inr (h @ replicate 10 0 @ take cnt (drop off bytes) @ replicate (P - cnt) 0)"
proof -
  have "Buffer_copy bytes (h @ replicate (P + 10) 0) (int 16) (int off) (int off + int cnt)
      = Inr (take 16 (h @ replicate (P + 10) 0) @ take cnt (drop off bytes)
             @ drop (16 + cnt) (h @ replicate (P + 10) 0))"
    using assms by (intro Buffer_copy_ok) simp_all
  moreover have "take 16 (h @ replicate (P + 10) 0) = h @ replicate 10 (0::byte)"
    using assms by simp
  moreover have "drop (16 + cnt) (h @ replicate (P + 10) 0) = replicate (P - cnt) (0::byte)"
    using assms by simp
  ultimately show ?thesis by simp
qed

lemma loop_step:
  assumes P: "MAX_PAYLOAD_SIZE m = int P" "0 < P"
      and k: "0 \<le> key + 1" "key + 1 \<le> 255"
      and p: "0 \<le> part" "part \<le> 65535"
      and r: "0 < rem" "rem \<le> length bytes"
  shows "\<exists>packet packet1 packet2. Buffer_alloc (getFillImagePacketLength m) = Inr packet
     \<and> writeFillImageCommandHeader packet key part (int rem \<le> MAX_PAYLOAD_SIZE m) (min (int rem) (MAX_PAYLOAD_SIZE m)) = Inr packet1
     \<and> Buffer_copy bytes packet1 getFillImageCommandHeaderLength (int (length bytes) - int rem)
          (int (length bytes) - int rem + min (int rem) (MAX_PAYLOAD_SIZE m)) = Inr packet2 \<and> bufferToIntArray packet2 = 
        framedPacket P key part (rem \<le> P) (take P (drop (length bytes - rem) bytes))"
proof -
  have M: "getFillImagePacketLength m = int P + 16"
    using P by (simp add: MAX_PAYLOAD_SIZE_def getFillImageCommandHeaderLength_def)
  have a: "Buffer_alloc (getFillImagePacketLength m) = Inr (replicate (P + 16) 0)"
    by (simp add: Buffer_alloc_def M nat_add_distrib)
  let ?h = "[2, 1, word_of_int part, word_of_int (part div 256), (if int rem \<le> MAX_PAYLOAD_SIZE m then 1 else 0), word_of_int (key+1)] :: Buffer"
  have h: "writeFillImageCommandHeader (replicate (P + 16) 0) key part (int rem \<le> MAX_PAYLOAD_SIZE m) (min (int rem) (MAX_PAYLOAD_SIZE m))
       = Inr (?h @ replicate (P + 10) 0)"
    using writeFillImageCommandHeader_ok[OF p k, of "replicate (P + 16) 0"] by simp
  let ?cnt = "min rem P"
  let ?off = "length bytes - rem"
  have e1: "int (length bytes) - int rem = int ?off" using r by simp
  have e2: "min (int rem) (MAX_PAYLOAD_SIZE m) = int ?cnt" using P by simp
  have c: "Buffer_copy bytes (?h @ replicate (P + 10) 0) getFillImageCommandHeaderLength (int (length bytes) - int rem)
          (int (length bytes) - int rem + min (int rem) (MAX_PAYLOAD_SIZE m))
      = Inr (?h @ replicate 10 0 @ take ?cnt (drop ?off bytes) @ replicate (P - ?cnt) 0)"
    unfolding e1 e2 getFillImageCommandHeaderLength_def
    using P r by (intro Buffer_copy_payload) simp_all
  have t: "take ?cnt (drop ?off bytes) = take P (drop ?off bytes)"
    using r by (cases "rem \<le> P") (simp_all add: min_def)
  have u: "uint (word_of_int part :: byte) = part mod 256"
          "uint (word_of_int (part div 256) :: byte) = part div 256"
          "uint (word_of_int (key + 1) :: byte) = key + 1"
    using p k uint_byte[of "key + 1"] by (simp_all add: uint_word_of_int del: of_int_add)
  have len: "length (take P (drop ?off bytes)) = ?cnt" using r by simp
  have f: "bufferToIntArray (?h @ replicate 10 0 @ take ?cnt (drop ?off bytes) @ replicate (P - ?cnt) 0)
       = framedPacket P key part (rem \<le> P) (take P (drop ?off bytes))"
    unfolding t using P u len by (simp add: bufferToIntArray_def framedPacket_def)
  from a h c f show ?thesis by blast
qed


lemma loop_ok:
  assumes P: "MAX_PAYLOAD_SIZE m = int P" "0 < P"
      and k: "0 \<le> key + 1" "key + 1 \<le> 255"
  shows "rem \<le> length bytes \<Longrightarrow> 0 \<le> part \<Longrightarrow> part + int ((rem + P - 1) div P) \<le> 65536 \<Longrightarrow>
    generateFillImageWrites_loop m key bytes part (int rem) res
      = Inr (res @ framedPackets P key part (drop (length bytes - rem) bytes))"
proof (induction rem arbitrary: part res rule: less_induct)
  case (less rem)
  show ?case
  proof (cases "rem = 0")
    case True
    then show ?thesis
      by (simp add: generateFillImageWrites_loop.simps framedPackets.simps)
  next
    case False
    let ?bs = "drop (length bytes - rem) bytes"
    let ?rem' = "rem - min rem P"
    have pos: "0 < rem" using False by simp
    have "1 \<le> (rem + P - 1) div P"
      using pos P(2) by (simp add: Suc_le_eq div_greater_zero_iff)
    with less.prems have part: "part \<le> 65535" by linarith
    from loop_step[OF P k less.prems(2) part pos less.prems(1)]
    obtain packet packet1 packet2 where
      a: "Buffer_alloc (getFillImagePacketLength m) = Inr packet" and
      h: "writeFillImageCommandHeader packet key part (int rem \<le> MAX_PAYLOAD_SIZE m)
            (min (int rem) (MAX_PAYLOAD_SIZE m)) = Inr packet1" and
      c: "Buffer_copy bytes packet1 getFillImageCommandHeaderLength (int (length bytes) - int rem)
            (int (length bytes) - int rem + min (int rem) (MAX_PAYLOAD_SIZE m)) = Inr packet2" and
      f: "bufferToIntArray packet2 = framedPacket P key part (rem \<le> P) (take P ?bs)"
      by blast
    have r': "int rem - min (int rem) (MAX_PAYLOAD_SIZE m) = int ?rem'"
      using P by simp
    have unfold: "generateFillImageWrites_loop m key bytes part (int rem) res
        = generateFillImageWrites_loop m key bytes (part + 1) (int ?rem')
            (res @ [framedPacket P key part (rem \<le> P) (take P ?bs)])"
      using pos a h c f r'
      by (subst generateFillImageWrites_loop.simps) (simp add: Let_def)
    have cnt: "(rem + P - 1) div P = Suc ((?rem' + P - 1) div P)"
    proof (cases "rem \<le> P")
      case True
      then have "(rem + P - 1) div P = 1" using pos P(2)
        by (simp add: div_eq_dividend_iff le_div_geq)
      with True show ?thesis using P(2) by simp
    next
      case False
      then have "rem + P - 1 = (rem - P + P - 1) + P" using P(2) by simp
      then have "(rem + P - 1) div P = Suc ((rem - P + P - 1) div P)"
        using P(2) by (metis div_add_self2 Suc_eq_plus1 less_numeral_extra(3))
      with False show ?thesis by (simp add: min_def)
    qed
    have lt: "?rem' < rem" using pos P(2) by (simp add: min_def)
    have IH: "generateFillImageWrites_loop m key bytes (part + 1) (int ?rem')
            (res @ [framedPacket P key part (rem \<le> P) (take P ?bs)])
         = Inr ((res @ [framedPacket P key part (rem \<le> P) (take P ?bs)])
                @ framedPackets P key (part + 1) (drop (length bytes - ?rem') bytes))"
      using less.prems cnt by (intro less.IH[OF lt]) simp_all
    have ne: "?bs \<noteq> []" using pos less.prems(1) by simp
    have len: "length ?bs = rem" using less.prems(1) by simp
    have dr: "drop P ?bs = drop (length bytes - ?rem') bytes"
      using less.prems(1) by (cases "rem \<le> P") (simp_all add: min_def add.commute)
    have fp: "framedPackets P key part ?bs
        = framedPacket P key part (rem \<le> P) (take P ?bs)
          # framedPackets P key (part + 1) (drop (length bytes - ?rem') bytes)"
      using ne P(2) len dr by (subst framedPackets.simps) simp
    show ?thesis unfolding unfold IH fp by simp
  qed
qed


lemma writeFillImageCommandHeader_overflow:
  assumes "6 \<le> length buffer" "65535 < part"
  shows "writeFillImageCommandHeader buffer key part isLast n = Inl BufferOutOfRange"
  using assms
  by (simp add: writeFillImageCommandHeader_def writeUInt8_def writeUInt16LE_def)

lemma ceil_step:
  assumes "0 < P" "0 < r"
  shows "(r + P - 1) div P = Suc ((r - P + P - 1) div P)"
proof (cases "r \<le> P")
  case True
  then have "(r + P - 1) div P = 1" using assms
    by (simp add: div_eq_dividend_iff le_div_geq)
  with True show ?thesis using assms by simp
next
  case False
  then have "r + P - 1 = (r - P + P - 1) + P" using assms by simp
  then have "(r + P - 1) div P = Suc ((r - P + P - 1) div P)"
    using assms by (metis div_add_self2 Suc_eq_plus1 less_numeral_extra(3))
  then show ?thesis .
qed

lemma loop_overflow:
  assumes P: "MAX_PAYLOAD_SIZE m = int P" "0 < P"
      and k: "0 \<le> key + 1" "key + 1 \<le> 255"
  shows "rem \<le> length bytes \<Longrightarrow> 0 \<le> part \<Longrightarrow> part \<le> 65536 \<Longrightarrow>
    65536 < part + int ((rem + P - 1) div P) \<Longrightarrow>
    generateFillImageWrites_loop m key bytes part (int rem) res = Inl BufferOutOfRange"
proof (induction rem arbitrary: part res rule: less_induct)
  case (less rem)
  have pos: "0 < rem"
  proof (rule ccontr)
    assume "\<not> 0 < rem"
    then have "(rem + P - 1) div P = 0" using P(2) by simp
    with less.prems show False by simp
  qed
  show ?case
  proof (cases "part = 65536")
    case True
    have M: "getFillImagePacketLength m = int P + 16"
      using P by (simp add: MAX_PAYLOAD_SIZE_def getFillImageCommandHeaderLength_def)
    have a: "Buffer_alloc (getFillImagePacketLength m) = Inr (replicate (P + 16) 0)"
      by (simp add: Buffer_alloc_def M nat_add_distrib)
    have h: "writeFillImageCommandHeader (replicate (P + 16) 0) key part (int rem \<le> MAX_PAYLOAD_SIZE m)
            (min (int rem) (MAX_PAYLOAD_SIZE m)) = Inl BufferOutOfRange"
      using True by (intro writeFillImageCommandHeader_overflow) simp_all
    show ?thesis using pos a h
      by (subst generateFillImageWrites_loop.simps) (simp add: Let_def)
  next
    case False
    with less.prems have part: "part \<le> 65535" by simp
    let ?bs = "drop (length bytes - rem) bytes"
    let ?rem' = "rem - min rem P"
    from loop_step[OF P k less.prems(2) part pos less.prems(1)]
    obtain packet packet1 packet2 where
      a: "Buffer_alloc (getFillImagePacketLength m) = Inr packet" and
      h: "writeFillImageCommandHeader packet key part (int rem \<le> MAX_PAYLOAD_SIZE m)
            (min (int rem) (MAX_PAYLOAD_SIZE m)) = Inr packet1" and
      c: "Buffer_copy bytes packet1 getFillImageCommandHeaderLength (int (length bytes) - int rem)
            (int (length bytes) - int rem + min (int rem) (MAX_PAYLOAD_SIZE m)) = Inr packet2"
      by blast
    have r': "int rem - min (int rem) (MAX_PAYLOAD_SIZE m) = int ?rem'"
      using P by simp
    have unfold: "generateFillImageWrites_loop m key bytes part (int rem) res
        = generateFillImageWrites_loop m key bytes (part + 1) (int ?rem')
            (res @ [bufferToIntArray packet2])"
      using pos a h c r'
      by (subst generateFillImageWrites_loop.simps) (simp add: Let_def)
    have rP: "?rem' = rem - P" by (simp add: min_def)
    have cnt: "(rem + P - 1) div P = Suc ((?rem' + P - 1) div P)"
      unfolding rP using ceil_step[OF P(2) pos] .
    have lt: "?rem' < rem" using pos P(2) by (simp add: min_def)
    have "generateFillImageWrites_loop m key bytes (part + 1) (int ?rem')
            (res @ [bufferToIntArray packet2]) = Inl BufferOutOfRange"
      using less.prems cnt part by (intro less.IH[OF lt]) simp_all
    with unfold show ?thesis by simp
  qed
qed

lemma length_framedPackets:
  "0 < P \<Longrightarrow> length (framedPackets P k part bs) = (length bs + P - 1) div P"
proof (induction P k part bs rule: framedPackets.induct)
  case (1 P k part bs)
  show ?case
  proof (cases "bs = []")
    case True
    then show ?thesis using 1(2) by (simp add: framedPackets.simps)
  next
    case False
    then have pos: "0 < length bs" by simp
    have "length (framedPackets P k part bs) = Suc (length (framedPackets P k (part + 1) (drop P bs)))"
      using False 1(2) by (subst framedPackets.simps) simp
    also have "\<dots> = Suc ((length (drop P bs) + P - 1) div P)"
      using 1 False by simp
    also have "\<dots> = (length bs + P - 1) div P"
      using ceil_step[OF 1(2) pos] by simp
    finally show ?thesis .
  qed
qed

lemma nth_framedPackets:
  "i < length (framedPackets P k part bs) \<Longrightarrow>
   framedPackets P k part bs ! i
     = framedPacket P k (part + int i) (length bs \<le> (i + 1) * P) (take P (drop (i * P) bs))"
proof (induction P k part bs arbitrary: i rule: framedPackets.induct)
  case (1 P k part bs)
  have ne: "\<not> (bs = [] \<or> P = 0)"
    using 1(2) by (subst (asm) framedPackets.simps) (auto split: if_splits)
  have eq: "framedPackets P k part bs
      = framedPacket P k part (length bs \<le> P) (take P bs) # framedPackets P k (part + 1) (drop P bs)"
    using ne by (subst framedPackets.simps) simp
  show ?case
  proof (cases i)
    case 0
    then show ?thesis by (simp add: eq)
  next
    case (Suc j)
    with 1(2) have j: "j < length (framedPackets P k (part + 1) (drop P bs))"
      by (simp add: eq)
    have "framedPackets P k part bs ! i = framedPackets P k (part + 1) (drop P bs) ! j"
      by (simp add: eq Suc)
    also have "\<dots> = framedPacket P k (part + 1 + int j) (length (drop P bs) \<le> (j + 1) * P)
                       (take P (drop (j * P) (drop P bs)))"
      using 1(1)[OF ne j] .
    also have "\<dots> = framedPacket P k (part + int i) (length bs \<le> (i + 1) * P) (take P (drop (i * P) bs))"
    proof -
      have b: "(length (drop P bs) \<le> (j + 1) * P) = (length bs \<le> (i + 1) * P)"
        using Suc by auto
      have d: "drop (j * P) (drop P bs) = drop (i * P) bs"
        using Suc by (simp add: add.commute)
      have p: "part + 1 + int j = part + int i"
        using Suc by simp
      show ?thesis by (simp only: b d p)
    qed
    finally show ?thesis .
  qed
qed

lemma concat_chunks:
  "concat (map (\<lambda>i. take P (drop (i * P) bs)) [0..<n]) = take (n * P) bs"
proof (induction n)
  case 0
  show ?case by simp
next
  case (Suc n)
  have "take (n * P + P) bs = take (n * P) bs @ take P (drop (n * P) bs)"
    by (rule take_add)
  with Suc show ?case by (simp add: add.commute)
qed

lemma ceil_bounds:
  fixes L P :: nat
  assumes "0 < P"
  shows "L \<le> ((L + P - 1) div P) * P"
    and "0 < L \<Longrightarrow> ((L + P - 1) div P - 1) * P < L"
proof -
  define n where "n = (L + P - 1) div P"
  define r where "r = (L + P - 1) mod P"
  have e: "n * P + r = L + P - 1"
    by (simp add: n_def r_def)
  have r: "r < P" using assms by (simp add: r_def)
  from e r show "L \<le> ((L + P - 1) div P) * P"
    unfolding n_def[symmetric] by linarith
  assume "0 < L"
  have "(n - 1) * P = n * P - P" by (simp add: diff_mult_distrib)
  with e r \<open>0 < L\<close> show "((L + P - 1) div P - 1) * P < L"
    unfolding n_def[symmetric] by linarith
qed

lemma ceil_div_real:
  fixes L P :: nat
  assumes "0 < P"
  shows "\<lceil>real L / real P\<rceil> = int ((L + P - 1) div P)"
proof (rule ceiling_unique)
  let ?n = "(L + P - 1) div P"
  have "L \<le> ?n * P" using ceil_bounds(1)[OF assms] .
  then have "real L \<le> real ?n * real P" by (metis of_nat_mult of_nat_le_iff)
  then show "real L / real P \<le> of_int (int ?n)"
    using assms by (simp add: field_simps)
  show "of_int (int ?n) - 1 < real L / real P"
  proof (cases "L = 0")
    case True
    then show ?thesis using assms by simp
  next
    case False
    then have "(?n - 1) * P < L" using ceil_bounds(2)[OF assms] by simp
    then have "real (?n - 1) * real P < real L" by (metis of_nat_mult of_nat_less_iff)
    moreover have "1 \<le> ?n" using False assms by (simp add: Suc_le_eq div_greater_zero_iff)
    ultimately have "(real ?n - 1) * real P < real L" by (simp add: of_nat_diff)
    then show ?thesis using assms by (simp add: field_simps)
  qed
qed

lemma framedPacket_nth:
  "framedPacket P k part isLast chunk ! 0 = 2"
  "framedPacket P k part isLast chunk ! 1 = 1"
  "framedPacket P k part isLast chunk ! 2 = part mod 256"
  "framedPacket P k part isLast chunk ! 3 = part div 256"
  "framedPacket P k part isLast chunk ! 4 = (if isLast then 1 else 0)"
  "framedPacket P k part isLast chunk ! 5 = k + 1"
  by (simp_all add: framedPacket_def)

lemma length_framedPacket:
  "length chunk \<le> P \<Longrightarrow> length (framedPacket P k part isLast chunk) = P + 16"
  by (simp add: framedPacket_def)

lemma drop_framedPacket:
  "drop 16 (framedPacket P k part isLast chunk) = map uint chunk @ replicate (P - length chunk) 0"
  by (simp add: framedPacket_def)

lemma generateFillImageWrites_ok:
  assumes P: "MAX_PAYLOAD_SIZE m = int P" "0 < P"
      and k: "0 \<le> keyIndex" "keyIndex < 255"
      and L: "length byteBuffer \<le> 65536 * P"
  shows "generateFillImageWrites m keyIndex byteBuffer = Inr (framedPackets P keyIndex 0 byteBuffer)"
proof -
  let ?L = "length byteBuffer"
  let ?n = "(?L + P - 1) div P"
  have "?n * P \<le> ?L + P - 1" by (rule div_times_less_eq_dividend)
  also have "\<dots> < 65537 * P" using L P(2) by simp
  finally have "?n < 65537" by simp
  then have n: "0 + int ?n \<le> 65536" by simp
  have "generateFillImageWrites_loop m keyIndex byteBuffer 0 (int ?L) []
        = Inr ([] @ framedPackets P keyIndex 0 (drop (?L - ?L) byteBuffer))"
    using k by (intro loop_ok[OF P _ _ _ _ n]) simp_all
  then show ?thesis by (simp add: generateFillImageWrites_def)
qed

lemma generateFillImageWrites_overflow:
  assumes P: "MAX_PAYLOAD_SIZE m = int P" "0 < P"
      and k: "0 \<le> keyIndex" "keyIndex < 255"
      and L: "65536 * P < length byteBuffer"
  shows "generateFillImageWrites m keyIndex byteBuffer = Inl BufferOutOfRange"
proof -
  let ?L = "length byteBuffer"
  let ?n = "(?L + P - 1) div P"
  have "65536 * P < ?n * P" using ceil_bounds(1)[OF P(2), of ?L] L by linarith
  then have "65536 < ?n" by simp
  then have n: "65536 < 0 + int ?n" by simp
  have "generateFillImageWrites_loop m keyIndex byteBuffer 0 (int ?L) [] = Inl BufferOutOfRange"
    using k by (intro loop_overflow[OF P _ _ _ _ _ n]) simp_all
  then show ?thesis by (simp add: generateFillImageWrites_def)
qed

lemma demo_payload: "MAX_PAYLOAD_SIZE demo_model = int 2"
  by (simp add: MAX_PAYLOAD_SIZE_def demo_model_def getFillImageCommandHeaderLength_def)

text \<open>
  Claim C1 as stated fails: an image of 131073 bytes on the small model (capacity 2) needs
  part index 65536 for its last packet, \<open>writeUInt16LE\<close> refuses it, and the framer
  throws instead of returning \<open>ceil(L/P) = 65537\<close> packets.
\<close>

theorem C1_counterexample:
  "generateFillImageWrites demo_model 0 (replicate 131073 0) = Inl BufferOutOfRange"
  by (rule generateFillImageWrites_overflow[OF demo_payload]) simp_all


lemma framedPackets_props:
  fixes P :: nat and bs :: Buffer and k :: int
  assumes P: "0 < P" and L: "0 < length bs"
  shows "length (framedPackets P k 0 bs) = (length bs + P - 1) div P"
    and "0 < (length bs + P - 1) div P"
    and "\<And>i. i < (length bs + P - 1) div P \<Longrightarrow>
           framedPackets P k 0 bs ! i
             = framedPacket P k (int i) (i = (length bs + P - 1) div P - 1)
                 (take P (drop (i * P) bs))"
    and "\<And>i. length (take P (drop (i * P) bs)) = min P (length bs - i * P)"
proof -
  let ?n = "(length bs + P - 1) div P"
  let ?ps = "framedPackets P k 0 bs"
  show len: "length ?ps = ?n" using P by (simp add: length_framedPackets)
  have "P \<le> length bs + P - 1" using L by linarith
  then show pos: "0 < ?n" using P by (simp add: div_greater_zero_iff)
  show "\<And>i. length (take P (drop (i * P) bs)) = min P (length bs - i * P)"
    by (simp add: min.commute)
  fix i assume i: "i < ?n"
  have lo: "(?n - 1) * P < length bs" using ceil_bounds(2)[OF P L] .
  have hi: "length bs \<le> ?n * P" using ceil_bounds(1)[OF P] .
  have flag: "(length bs \<le> (i + 1) * P) = (i = ?n - 1)"
  proof
    assume a: "length bs \<le> (i + 1) * P"
    show "i = ?n - 1"
    proof (rule ccontr)
      assume "i \<noteq> ?n - 1"
      with i have "i + 1 \<le> ?n - 1" by simp
      then have "(i + 1) * P \<le> (?n - 1) * P" by (rule mult_le_mono1)
      with a lo show False by simp
    qed
  next
    assume "i = ?n - 1"
    with pos have "i + 1 = ?n" by simp
    with hi show "length bs \<le> (i + 1) * P" by simp
  qed
  have "i < length ?ps" using i len by simp
  then have "?ps ! i = framedPacket P k (0 + int i) (length bs \<le> (i + 1) * P) (take P (drop (i * P) bs))"
    by (rule nth_framedPackets)
  then show "?ps ! i = framedPacket P k (int i) (i = ?n - 1) (take P (drop (i * P) bs))"
    unfolding flag by simp
qed

lemma concat_payloads:
  assumes "\<And>i. i < n \<Longrightarrow> f i = map uint (take P (drop (i * P) bs))" "length bs \<le> n * P"
  shows "concat (map f [0..<n]) = map uint bs"
proof -
  have e: "map f [0..<n] = map (\<lambda>i. map uint (take P (drop (i * P) bs))) [0..<n]"
    by (intro map_cong refl) (simp add: assms(1))
  have "concat (map f [0..<n]) = concat (map (\<lambda>i. map uint (take P (drop (i * P) bs))) [0..<n])"
    by (simp only: e)
  also have "\<dots> = map uint (concat (map (\<lambda>i. take P (drop (i * P) bs)) [0..<n]))"
    by (simp add: map_concat comp_def)
  also have "\<dots> = map uint (take (n * P) bs)" by (simp only: concat_chunks)
  finally show ?thesis using assms(2) by simp
qed

text \<open>
  Claim C1, amended: for an encoded image of length \<open>L > 0\<close>, a payload capacity
  \<open>P = maxPacketSize - headerLength > 0\<close> with \<open>L \<le> 65536 * P\<close> (every part index fits the
  16-bit field of the header) and a native key index in \<open>[0, 255)\<close> (its one-based value
  fits a byte), \<open>generateFillImageWrites\<close> returns exactly \<open>ceil(L/P)\<close> packets; byte 4
  (the last flag) is 0 in the packets \<open>0 .. n-2\<close> and 1 in packet \<open>n-1\<close>; and the unpadded
  payload regions, concatenated in order, are the \<open>L\<close> input bytes.
\<close>

theorem C1_framer_packets:
  assumes "MAX_PAYLOAD_SIZE m = int P" and "0 < P"
      and "0 \<le> keyIndex" and "keyIndex < 255"
      and "0 < length byteBuffer" and "length byteBuffer \<le> 65536 * P"
  shows "\<exists>packets. generateFillImageWrites m keyIndex byteBuffer = Inr packets
           \<and> int (length packets) = \<lceil>real (length byteBuffer) / real P\<rceil>
           \<and> (\<forall>i < length packets - 1. packets ! i ! 4 = 0)
           \<and> packets ! (length packets - 1) ! 4 = 1
           \<and> concat (map (\<lambda>i. take (min P (length byteBuffer - i * P)) (drop 16 (packets ! i)))
                         [0..<length packets])
               = bufferToIntArray byteBuffer"
proof -
  let ?ps = "framedPackets P keyIndex 0 byteBuffer"
  let ?n = "(length byteBuffer + P - 1) div P"
  note pr = framedPackets_props[OF assms(2) assms(5)]
  have run: "generateFillImageWrites m keyIndex byteBuffer = Inr ?ps"
    using assms by (intro generateFillImageWrites_ok)
  have cnt: "int (length ?ps) = \<lceil>real (length byteBuffer) / real P\<rceil>"
    using pr(1) ceil_div_real[OF assms(2)] by simp
  have notlast: "\<forall>i < length ?ps - 1. ?ps ! i ! 4 = 0"
    using pr(1) pr(3) by (simp add: framedPacket_nth)
  have last: "?ps ! (length ?ps - 1) ! 4 = 1"
    using pr(1) pr(2) pr(3)[of "?n - 1"] by (simp add: framedPacket_nth)
  have payload: "\<And>i. i < ?n \<Longrightarrow>
      take (min P (length byteBuffer - i * P)) (drop 16 (?ps ! i))
        = map uint (take P (drop (i * P) byteBuffer))"
    using pr(3) pr(4) by (simp add: drop_framedPacket min.commute)
  have "concat (map (\<lambda>i. take (min P (length byteBuffer - i * P)) (drop 16 (?ps ! i))) [0..<?n])
        = map uint byteBuffer"
    using payload ceil_bounds(1)[OF assms(2)] by (intro concat_payloads) simp_all
  then have cat: "concat (map (\<lambda>i. take (min P (length byteBuffer - i * P)) (drop 16 (?ps ! i)))
                      [0..<length ?ps]) = bufferToIntArray byteBuffer"
    using pr(1) by (simp add: bufferToIntArray_def)
  from run cnt notlast last cat show ?thesis by blast
qed

text \<open>A run of C1 on the small model: three bytes make two packets.\<close>

theorem C1_framer_packets_witness:
  "MAX_PAYLOAD_SIZE demo_model = int 2 \<and> (0::nat) < 2 \<and> length [7, 8, 9 :: byte] \<le> 65536 * 2
   \<and> (\<exists>packets. generateFillImageWrites demo_model 0 [7, 8, 9] = Inr packets
         \<and> int (length packets) = 2
         \<and> packets ! 0 ! 4 = 0
         \<and> packets ! 1 ! 4 = 1
         \<and> take 2 (drop 16 (packets ! 0)) @ take 1 (drop 16 (packets ! 1)) = [7, 8, 9])"
proof -
  from C1_framer_packets[of demo_model 2 0 "[7, 8, 9]", OF demo_payload]
  obtain packets where
    r: "generateFillImageWrites demo_model 0 [7, 8, 9] = Inr packets" and
    n: "int (length packets) = \<lceil>real (length [7, 8, 9 :: byte]) / real (2::nat)\<rceil>" and
    f: "\<forall>i < length packets - 1. packets ! i ! 4 = 0" and
    l: "packets ! (length packets - 1) ! 4 = 1" and
    c: "concat (map (\<lambda>i. take (min 2 (length [7, 8, 9 :: byte] - i * 2)) (drop 16 (packets ! i)))
                  [0..<length packets]) = bufferToIntArray [7, 8, 9]"
    by auto
  have n2: "length packets = 2" using n by simp
  have upt2: "[0..<2] = [0, Suc 0]" by (simp add: upt_rec)
  from f n2 have f0: "packets ! 0 ! 4 = 0" by simp
  from l n2 have l1: "packets ! 1 ! 4 = 1" by simp
  from c n2 have c': "take 2 (drop 16 (packets ! 0)) @ take 1 (drop 16 (packets ! 1)) = [7, 8, 9]"
    by (simp add: upt2 bufferToIntArray_def) (simp only: numeral_2_eq_2)
  from r n2 f0 l1 c' demo_payload show ?thesis by simp
qed

subsection \<open>The header bytes\<close>

lemma writeFillImageCommandHeader_key_overflow:
  assumes "6 \<le> length buffer" "0 \<le> part" "part \<le> 65535" "254 < key"
  shows "writeFillImageCommandHeader buffer key part isLast n = Inl BufferOutOfRange"
  using assms
  by (simp add: writeFillImageCommandHeader_def writeUInt8_def writeUInt16LE_def)

text \<open>
  Claim C2 as stated fails: at part index 256, which is in \<open>[0, 2^16)\<close>, the two bytes
  written by \<open>writeUInt16LE\<close> are \<open>0x00, 0x01\<close>, so byte 3 is \<open>0x01\<close> while bytes 2 and 3
  hold the part index: the two halves of the claim cannot both hold there.
\<close>

theorem C2_counterexample:
  "writeFillImageCommandHeader (replicate 16 0) 0 256 False 0
     = Inr [2, 1, 0, 1, 0, 1, 0, 0, 0, 0, 0, 0, 0, 0, 0, 0]"
  by code_simp

text \<open>
  Claim C2, amended: for a part index in \<open>[0, 256)\<close>, either last flag, a native key
  index in \<open>[0, 255)\<close> and a packet of at least six bytes, \<open>writeFillImageCommandHeader\<close>
  leaves byte 0 = \<open>0x02\<close>, byte 1 = \<open>0x01\<close>, bytes 2 and 3 = the part index as a
  little-endian 16-bit number, byte 3 = \<open>0x00\<close>, byte 4 = 1 if last and 0 otherwise,
  byte 5 = the native key index plus one, and the rest of the packet unchanged.
\<close>

theorem C2_header_bytes:
  assumes "0 \<le> partIndex" and "partIndex < 256"
      and "0 \<le> keyIndex" and "keyIndex < 255"
      and "6 \<le> length buffer"
  shows "\<exists>b. writeFillImageCommandHeader buffer keyIndex partIndex isLast bodyLength = Inr b
           \<and> length b = length buffer
           \<and> uint (b ! 0) = 0x02
           \<and> uint (b ! 1) = 0x01
           \<and> uint (b ! 2) + 256 * uint (b ! 3) = partIndex
           \<and> uint (b ! 3) = 0x00
           \<and> uint (b ! 4) = (if isLast then 1 else 0)
           \<and> uint (b ! 5) = keyIndex + 1
           \<and> drop 6 b = drop 6 buffer"
proof -
  let ?b = "[2, 1, word_of_int partIndex, word_of_int (partIndex div 256),
             (if isLast then 1 else 0), word_of_int (keyIndex + 1)] @ drop 6 buffer"
  have run: "writeFillImageCommandHeader buffer keyIndex partIndex isLast bodyLength = Inr ?b"
    using assms by (intro writeFillImageCommandHeader_ok) simp_all
  have len: "length ?b = length buffer" using assms(5) by simp
  have "uint (word_of_int partIndex :: byte) = partIndex"
    using assms(1,2) by (intro uint_byte) simp_all
  then have b2: "uint (?b ! 2) = partIndex" by simp
  have "partIndex div 256 = 0" using assms(1,2) by simp
  then have b3: "uint (?b ! 3) = 0x00" by simp
  from b2 b3 have b23: "uint (?b ! 2) + 256 * uint (?b ! 3) = partIndex" by simp
  have "uint (word_of_int (keyIndex + 1) :: byte) = keyIndex + 1"
    using assms(3,4) by (intro uint_byte) simp_all
  then have b5: "uint (?b ! 5) = keyIndex + 1" by (simp del: of_int_add)
  have b4: "uint (?b ! 4) = (if isLast then 1 else 0)" by simp
  have b0: "uint (?b ! 0) = 0x02" "uint (?b ! 1) = 0x01" by simp_all
  have dr: "drop 6 ?b = drop 6 buffer" by simp
  from run len b0 b23 b3 b4 b5 dr show ?thesis by blast
qed

text \<open>A run of C2: the last packet, part index 200, for key 4.\<close>

theorem C2_header_bytes_witness:
  "(0::int) \<le> 200 \<and> (200::int) < 256 \<and> (0::int) \<le> 4 \<and> (4::int) < 255
   \<and> 6 \<le> length (replicate 16 (0::byte))
   \<and> (\<exists>b. writeFillImageCommandHeader (replicate 16 0) 4 200 True 0 = Inr b
         \<and> length b = 16
         \<and> uint (b ! 0) = 2 \<and> uint (b ! 1) = 1 \<and> uint (b ! 2) + 256 * uint (b ! 3) = 200
         \<and> uint (b ! 3) = 0
         \<and> uint (b ! 4) = 1 \<and> uint (b ! 5) = 5
         \<and> drop 6 b = replicate 10 0)"
  using C2_header_bytes[of 200 4 "replicate 16 0" True 0] by simp

subsection \<open>Packet invariants\<close>

lemma filter_only_last:
  assumes "xs \<noteq> []" "\<And>i. i < length xs \<Longrightarrow> Q (xs ! i) = (i = length xs - 1)"
  shows "length (filter Q xs) = 1"
proof -
  have split: "xs = butlast xs @ [last xs]" using assms(1) by simp
  have "\<forall>x \<in> set (butlast xs). \<not> Q x"
  proof
    fix x assume "x \<in> set (butlast xs)"
    then obtain i where i: "i < length (butlast xs)" "butlast xs ! i = x"
      by (auto simp: in_set_conv_nth)
    then have "x = xs ! i" "i < length xs" "i \<noteq> length xs - 1"
      by (auto simp: nth_butlast)
    then show "\<not> Q x" using assms(2) by simp
  qed
  then have a: "filter Q (butlast xs) = []" by simp
  have "Q (xs ! (length xs - 1))" using assms by simp
  then have b: "Q (last xs)" using assms(1) by (simp add: last_conv_nth)
  have "filter Q xs = filter Q (butlast xs @ [last xs])" using split by simp
  also have "\<dots> = [last xs]" using a b by simp
  finally show ?thesis by simp
qed

lemma padding_framedPacket:
  "drop (16 + length chunk) (framedPacket P k part isLast chunk) = replicate (P - length chunk) 0"
proof -
  have "drop (16 + length chunk) (framedPacket P k part isLast chunk)
        = drop (length chunk) (drop 16 (framedPacket P k part isLast chunk))"
    by (simp add: add.commute)
  also have "\<dots> = replicate (P - length chunk) 0"
    by (simp only: drop_framedPacket) simp
  finally show ?thesis .
qed

text \<open>
  Claim C3 as stated fails at the empty input it names: the loop is not entered, no packet
  is emitted, and so no packet carries the last flag.
\<close>

theorem C3_counterexample:
  "generateFillImageWrites demo_model 0 [] = Inr []"
  by (simp add: generateFillImageWrites_def generateFillImageWrites_loop.simps)

text \<open>
  Claim C3, amended: for a payload capacity \<open>P > 0\<close>, a native key index in \<open>[0, 255)\<close>
  and an input of at most \<open>65536 * P\<close> bytes, every packet the framer emits has length
  exactly \<open>maxPacketSize\<close>, the bytes after its payload are zero, packet \<open>i\<close> carries the
  part index \<open>i\<close>, and the last flag is set in the final packet only; a non-empty input
  gives exactly one packet with the last flag, the empty input gives no packet at all.
\<close>

theorem C3_packet_invariants:
  assumes "MAX_PAYLOAD_SIZE m = int P" and "0 < P"
      and "0 \<le> keyIndex" and "keyIndex < 255"
      and "length byteBuffer \<le> 65536 * P"
  shows "\<exists>packets. generateFillImageWrites m keyIndex byteBuffer = Inr packets
           \<and> (\<forall>i < length packets.
                  int (length (packets ! i)) = getFillImagePacketLength m
                \<and> drop (16 + min P (length byteBuffer - i * P)) (packets ! i)
                    = replicate (P - min P (length byteBuffer - i * P)) 0
                \<and> packets ! i ! 2 + 256 * (packets ! i ! 3) = int i
                \<and> packets ! i ! 4 = (if i = length packets - 1 then 1 else 0))
           \<and> (byteBuffer \<noteq> [] \<longrightarrow> length (filter (\<lambda>p. p ! 4 = 1) packets) = 1)
           \<and> (byteBuffer = [] \<longrightarrow> packets = [])"
proof -
  let ?ps = "framedPackets P keyIndex 0 byteBuffer"
  let ?L = "length byteBuffer"
  have M: "getFillImagePacketLength m = int P + 16"
    using assms(1) by (simp add: MAX_PAYLOAD_SIZE_def getFillImageCommandHeaderLength_def)
  have run: "generateFillImageWrites m keyIndex byteBuffer = Inr ?ps"
    using assms by (intro generateFillImageWrites_ok)
  show ?thesis
  proof (cases "byteBuffer = []")
    case True
    then have "?ps = []" by (simp add: framedPackets.simps)
    with run True show ?thesis by simp
  next
    case False
    then have L: "0 < ?L" by simp
    note pr = framedPackets_props[OF assms(2) L]
    have each: "\<forall>i < length ?ps.
                  int (length (?ps ! i)) = getFillImagePacketLength m
                \<and> drop (16 + min P (?L - i * P)) (?ps ! i) = replicate (P - min P (?L - i * P)) 0
                \<and> ?ps ! i ! 2 + 256 * (?ps ! i ! 3) = int i
                \<and> ?ps ! i ! 4 = (if i = length ?ps - 1 then 1 else 0)"
    proof (intro allI impI)
      fix i assume "i < length ?ps"
      then have i: "i < (?L + P - 1) div P" using pr(1) by simp
      let ?chunk = "take P (drop (i * P) byteBuffer)"
      have p: "?ps ! i = framedPacket P keyIndex (int i) (i = length ?ps - 1) ?chunk"
        using pr(3)[OF i] pr(1) by simp
      have c: "length ?chunk = min P (?L - i * P)" by (rule pr(4))
      have "length (?ps ! i) = P + 16"
        unfolding p by (rule length_framedPacket) simp
      then have a: "int (length (?ps ! i)) = getFillImagePacketLength m" using M by simp
      have "drop (16 + length ?chunk) (?ps ! i) = replicate (P - length ?chunk) 0"
        unfolding p by (rule padding_framedPacket)
      then have b: "drop (16 + min P (?L - i * P)) (?ps ! i) = replicate (P - min P (?L - i * P)) 0"
        using c by simp
      have d: "?ps ! i ! 2 + 256 * (?ps ! i ! 3) = int i"
        unfolding p by (simp add: framedPacket_nth)
      have e: "?ps ! i ! 4 = (if i = length ?ps - 1 then 1 else 0)"
        unfolding p by (simp add: framedPacket_nth)
      from a b d e show "int (length (?ps ! i)) = getFillImagePacketLength m
                \<and> drop (16 + min P (?L - i * P)) (?ps ! i) = replicate (P - min P (?L - i * P)) 0
                \<and> ?ps ! i ! 2 + 256 * (?ps ! i ! 3) = int i
                \<and> ?ps ! i ! 4 = (if i = length ?ps - 1 then 1 else 0)" by blast
    qed
    have "0 < length ?ps" using pr(1)[of keyIndex] pr(2) by simp
    then have ne: "?ps \<noteq> []" by simp
    have "length (filter (\<lambda>p. p ! 4 = 1) ?ps) = 1"
      using ne each by (intro filter_only_last) simp_all
    with run each False show ?thesis by simp
  qed
qed

text \<open>A run of C3 on the small model.\<close>

theorem C3_packet_invariants_witness:
  "MAX_PAYLOAD_SIZE demo_model = int 2 \<and> (0::nat) < 2 \<and> length [7, 8, 9 :: byte] \<le> 65536 * 2
   \<and> (\<exists>packets. generateFillImageWrites demo_model 0 [7, 8, 9] = Inr packets
         \<and> length (packets ! 0) = 18 \<and> length (packets ! 1) = 18
         \<and> drop 17 (packets ! 1) = [0]
         \<and> packets ! 0 ! 2 + 256 * (packets ! 0 ! 3) = 0
         \<and> packets ! 1 ! 2 + 256 * (packets ! 1 ! 3) = 1
         \<and> packets ! 0 ! 4 = 0 \<and> packets ! 1 ! 4 = 1
         \<and> length (filter (\<lambda>p. p ! 4 = 1) packets) = 1)"
proof -
  have run: "generateFillImageWrites demo_model 0 [7, 8, 9]
      = Inr [[2, 1, 0, 0, 0, 1, 0, 0, 0, 0, 0, 0, 0, 0, 0, 0, 7, 8],
             [2, 1, 1, 0, 1, 1, 0, 0, 0, 0, 0, 0, 0, 0, 0, 0, 9, 0]]"
    by code_simp
  from C3_packet_invariants[of demo_model 2 0 "[7, 8, 9]", OF demo_payload]
  obtain packets where
    r: "generateFillImageWrites demo_model 0 [7, 8, 9] = Inr packets" and
    e: "\<forall>i < length packets.
                  int (length (packets ! i)) = getFillImagePacketLength demo_model
                \<and> drop (16 + min 2 (length [7, 8, 9 :: byte] - i * 2)) (packets ! i)
                    = replicate (2 - min 2 (length [7, 8, 9 :: byte] - i * 2)) 0
                \<and> packets ! i ! 2 + 256 * (packets ! i ! 3) = int i
                \<and> packets ! i ! 4 = (if i = length packets - 1 then 1 else 0)" and
    f: "length (filter (\<lambda>p. p ! 4 = 1) packets) = 1"
    by auto
  from r run have n: "length packets = 2" by auto
  from e n have e0: "int (length (packets ! 0)) = getFillImagePacketLength demo_model
       \<and> packets ! 0 ! 2 + 256 * (packets ! 0 ! 3) = 0 \<and> packets ! 0 ! 4 = 0"
    by simp
  from e n have "1 < length packets \<longrightarrow> int (length (packets ! 1)) = getFillImagePacketLength demo_model
       \<and> drop (16 + min 2 (length [7, 8, 9 :: byte] - 1 * 2)) (packets ! 1)
           = replicate (2 - min 2 (length [7, 8, 9 :: byte] - 1 * 2)) 0
       \<and> packets ! 1 ! 2 + 256 * (packets ! 1 ! 3) = 1 \<and> packets ! 1 ! 4 = (if (1::nat) = length packets - 1 then 1 else 0)"
    by (metis of_nat_1)
  with n have e1: "int (length (packets ! 1)) = getFillImagePacketLength demo_model
       \<and> drop 17 (packets ! 1) = [0]
       \<and> packets ! 1 ! 2 + 256 * (packets ! 1 ! 3) = 1 \<and> packets ! 1 ! 4 = 1"
    by simp
  have M: "getFillImagePacketLength demo_model = 18" by (simp add: demo_model_def)
  from r e0 e1 f M demo_payload show ?thesis by simp
qed

section \<open>Properties of the device controller\<close>

subsection \<open>What the fill pipeline leaves alone\<close>

lemma ICON_BYTES_nonneg: "0 \<le> ICON_BYTES m"
  by (simp add: ICON_BYTES_def)

lemma device_call_frame:
  "keyState (snd (device_call m s c)) = keyState s"
  "fillCalls (snd (device_call m s c)) = fillCalls s"
  "dataKeyOffset (snd (device_call m s c)) = dataKeyOffset s"
  "deviceCalls (snd (device_call m s c)) = deviceCalls s @ [c]"
  "fst (device_call m s c) = (if device_accepts m (deviceCalls s) c then Inr () else Inl TransportError)"
  by (simp_all add: device_call_def)

lemma sendPackets_outcome:
  "fst (sendPackets m s packets) = Resolved () \<or> fst (sendPackets m s packets) = Rejected TransportError"
  by (induction packets arbitrary: s) (auto simp: device_call_def split: prod.splits sum.splits)

lemma sendPackets_frame:
  "keyState (snd (sendPackets m s packets)) = keyState s"
  "fillCalls (snd (sendPackets m s packets)) = fillCalls s"
  "dataKeyOffset (snd (sendPackets m s packets)) = dataKeyOffset s"
  by (induction packets arbitrary: s; auto simp: device_call_def split: prod.splits sum.splits)+

lemma Buffer_errors:
  "Buffer_alloc n = Inl e \<Longrightarrow> e = BufferOutOfRange"
  "writeFillImageCommandHeader buf k p l c = Inl e \<Longrightarrow> e = BufferOutOfRange"
  "Buffer_copy src tgt a b d = Inl e \<Longrightarrow> e = BufferOutOfRange"
  by (auto simp: Buffer_alloc_def writeFillImageCommandHeader_def writeUInt8_def writeUInt16LE_def
        Buffer_copy_def Let_def split: if_splits sum.splits)

lemma loop_error:
  "generateFillImageWrites_loop m k bs part rem res = Inl e \<Longrightarrow> e = BufferOutOfRange"
proof (induction m k bs part rem res rule: generateFillImageWrites_loop.induct)
  case (1 m k bs part rem res)
  from "1.prems" show ?case
    apply (subst (asm) generateFillImageWrites_loop.simps)
    apply (auto simp: Let_def split: if_splits sum.splits dest: Buffer_errors intro: "1.IH")
    done
qed


lemma generateFillImageWrites_error:
  "generateFillImageWrites m k bs = Inl e \<Longrightarrow> e = BufferOutOfRange"
  unfolding generateFillImageWrites_def by (rule loop_error)

lemma fillImageRange_frame:
  "keyState (snd (fillImageRange m s k buf off stride)) = keyState s"
  "dataKeyOffset (snd (fillImageRange m s k buf off stride)) = dataKeyOffset s"
  "fillCalls (snd (fillImageRange m s k buf off stride)) = fillCalls s @ [(k, off, stride)]"
  by (simp_all add: fillImageRange_def Let_def sendPackets_frame split: sum.splits option.splits)

lemma sendPackets_not_thrown:
  "fst (sendPackets m s packets) \<noteq> Thrown e"
  using sendPackets_outcome[of m s packets] by auto

lemma fillImageRange_not_thrown:
  "fst (fillImageRange m s k buf off stride) \<noteq> Thrown e"
  by (simp add: fillImageRange_def Let_def sendPackets_not_thrown split: sum.splits option.splits)

lemma fillImageRange_valid_key:
  assumes "0 \<le> k" "k < NUM_KEYS m"
  shows "\<not> raisesValidationError (fillImageRange m s k buf off stride)"
proof -
  let ?s0 = "s\<lparr>fillCalls := fillCalls s @ [(k, off, stride)]\<rparr>"
  have c: "checkValidKeyIndex m k = Inr ()" using assms by (simp add: checkValidKeyIndex_def)
  show ?thesis
  proof (cases "convertFillImage m buf off stride")
    case None
    with c show ?thesis by (simp add: fillImageRange_def raisesValidationError_def)
  next
    case (Some byteBuffer)
    show ?thesis
    proof (cases "generateFillImageWrites m k byteBuffer")
      case (Inl e)
      then have "e = BufferOutOfRange" by (rule generateFillImageWrites_error)
      with c Some Inl show ?thesis by (simp add: fillImageRange_def raisesValidationError_def)
    next
      case (Inr packets)
      with c Some have "fillImageRange m s k buf off stride = sendPackets m ?s0 packets"
        by (simp add: fillImageRange_def Let_def)
      with sendPackets_outcome[of m ?s0 packets] show ?thesis
        by (auto simp: raisesValidationError_def)
    qed
  qed
qed

lemma Buffer_alloc_fill_uniform:
  "0 \<le> n \<Longrightarrow> Buffer_alloc_fill n (Buffer_from [c, c, c]) = Inr (replicate (nat n) (word_of_int c))"
proof -
  assume n: "0 \<le> n"
  have "\<And>i. [word_of_int c, word_of_int c, word_of_int c :: byte] ! (i mod 3) = word_of_int c"
  proof -
    fix i :: nat
    have "i mod 3 = 0 \<or> i mod 3 = 1 \<or> i mod 3 = 2" by linarith
    then show "[word_of_int c, word_of_int c, word_of_int c :: byte] ! (i mod 3) = word_of_int c"
      by auto
  qed
  then have "map (\<lambda>i. [word_of_int c, word_of_int c, word_of_int c :: byte] ! (i mod 3)) [0..<nat n]
             = replicate (nat n) (word_of_int c)"
    by (simp add: map_replicate_const)
  with n show ?thesis by (simp add: Buffer_alloc_fill_def Buffer_from_def)
qed

lemma Buffer_alloc_fill_ok:
  "0 \<le> n \<Longrightarrow> \<exists>pixels. Buffer_alloc_fill n pat = Inr pixels"
  by (simp add: Buffer_alloc_fill_def)

subsection \<open>A uniform colour and a uniform image\<close>

text \<open>
  Claim C8: for a valid key \<open>k\<close> and a channel value \<open>c\<close> in \<open>[0, 255]\<close>,
  \<open>fillColor(k, c, c, c)\<close> and \<open>fillImage(k, buffer)\<close> with a buffer of \<open>iconBytes\<close>
  bytes all equal to \<open>c\<close> end the same way in the same state; in particular they have
  sent the same packets to the device, in the same order.
\<close>

theorem C8_fillColor_fillImage:
  assumes "0 \<le> k" and "k < NUM_KEYS m" and "0 \<le> c" and "c \<le> 255"
  shows "fillColor m s k c c c = fillImage m s k (replicate (nat (ICON_BYTES m)) (word_of_int c))
       \<and> deviceCalls (snd (fillColor m s k c c c))
           = deviceCalls (snd (fillImage m s k (replicate (nat (ICON_BYTES m)) (word_of_int c))))"
proof -
  have "fillColor m s k c c c = fillImage m s k (replicate (nat (ICON_BYTES m)) (word_of_int c))"
    using assms ICON_BYTES_nonneg[of m]
    by (simp add: fillColor_def fillImage_def checkValidKeyIndex_def checkRGBValue_def
          Buffer_alloc_fill_uniform)
  then show ?thesis by simp
qed

text \<open>C8 on the small model, key 1 and colour value 9.\<close>

theorem C8_fillColor_fillImage_witness:
  "(0::int) \<le> 1 \<and> 1 < NUM_KEYS demo_model \<and> (0::int) \<le> 9 \<and> (9::int) \<le> 255
   \<and> fillColor demo_model demo_state 1 9 9 9 = fillImage demo_model demo_state 1 (replicate 3 9)
   \<and> deviceCalls (snd (fillColor demo_model demo_state 1 9 9 9))
       = [SendReport [2, 1, 0, 0, 0, 2, 0, 0, 0, 0, 0, 0, 0, 0, 0, 0, 9, 9],
          SendReport [2, 1, 1, 0, 1, 2, 0, 0, 0, 0, 0, 0, 0, 0, 0, 0, 9, 0]]"
proof -
  have run: "deviceCalls (snd (fillImage demo_model demo_state 1 (replicate 3 9)))
       = [SendReport [2, 1, 0, 0, 0, 2, 0, 0, 0, 0, 0, 0, 0, 0, 0, 0, 9, 9],
          SendReport [2, 1, 1, 0, 1, 2, 0, 0, 0, 0, 0, 0, 0, 0, 0, 0, 9, 0]]"
    by code_simp
  have h: "(0::int) \<le> 1" "1 < NUM_KEYS demo_model" "(0::int) \<le> 9" "(9::int) \<le> 255"
    by (simp_all add: NUM_KEYS_def KEY_COLUMNS_def KEY_ROWS_def demo_model_def demo_properties_def)
  have "ICON_BYTES demo_model = 3"
    by (simp add: ICON_BYTES_def get_ICON_SIZE_def demo_model_def demo_properties_def)
  with C8_fillColor_fillImage[OF h, of demo_state]
  have eq: "fillColor demo_model demo_state 1 9 9 9
              = fillImage demo_model demo_state 1 (replicate 3 9)"
    by simp
  from h eq run show ?thesis by simp
qed

subsection \<open>Brightness\<close>

text \<open>
  Claim C5: \<open>setBrightness\<close> raises its validation error exactly for a percentage
  outside \<open>[0, 100]\<close>, and then the state is unchanged (no call was made on the device);
  for a percentage in \<open>[0, 100]\<close> it issues exactly one call on the device, the feature
  report \<open>[0x05, 0x55, 0xAA, 0xD1, 0x01, percentage, 0, \<dots>, 0]\<close> of 17 bytes, and ends as
  that call does.
\<close>

theorem C5_setBrightness:
  "(percentage < 0 \<or> 100 < percentage \<longrightarrow>
      setBrightness m s percentage = (Rejected InvalidBrightness, s))
   \<and> (0 \<le> percentage \<and> percentage \<le> 100 \<longrightarrow>
        deviceCalls (snd (setBrightness m s percentage))
          = deviceCalls s @ [SendFeatureReport
               [0x05, 0x55, 0xAA, 0xD1, 0x01, percentage, 0, 0, 0, 0, 0, 0, 0, 0, 0, 0, 0]]
      \<and> fst (setBrightness m s percentage)
          = (if device_accepts m (deviceCalls s) (SendFeatureReport
               [0x05, 0x55, 0xAA, 0xD1, 0x01, percentage, 0, 0, 0, 0, 0, 0, 0, 0, 0, 0, 0])
             then Resolved () else Rejected TransportError))
   \<and> raisesValidationError (setBrightness m s percentage)
        = (percentage < 0 \<or> 100 < percentage)"
  by (auto simp: setBrightness_def device_call_def raisesValidationError_def Let_def)

text \<open>C5 at the percentages -1, 101, 100 and 0.\<close>

theorem C5_setBrightness_witness:
  "setBrightness demo_model demo_state (- 1) = (Rejected InvalidBrightness, demo_state)
   \<and> setBrightness demo_model demo_state 101 = (Rejected InvalidBrightness, demo_state)
   \<and> deviceCalls (snd (setBrightness demo_model demo_state 100))
        = [SendFeatureReport [5, 85, 170, 209, 1, 100, 0, 0, 0, 0, 0, 0, 0, 0, 0, 0, 0]]
   \<and> fst (setBrightness demo_model demo_state 100) = Resolved ()
   \<and> deviceCalls (snd (setBrightness demo_model demo_state 0))
        = [SendFeatureReport [5, 85, 170, 209, 1, 0, 0, 0, 0, 0, 0, 0, 0, 0, 0, 0, 0]]"
  using C5_setBrightness[of "- 1" demo_model demo_state]
        C5_setBrightness[of 101 demo_model demo_state]
        C5_setBrightness[of 100 demo_model demo_state]
        C5_setBrightness[of 0 demo_model demo_state]
  by (simp add: demo_model_def demo_state_def)


subsection \<open>Validation\<close>

lemma fillColor_throws:
  "throwsValidationError (fillColor m s k r g b) s
     = (k < 0 \<or> NUM_KEYS m \<le> k \<or> r < 0 \<or> 255 < r \<or> g < 0 \<or> 255 < g \<or> b < 0 \<or> 255 < b)"
proof (cases "k < 0 \<or> NUM_KEYS m \<le> k \<or> r < 0 \<or> 255 < r \<or> g < 0 \<or> 255 < g \<or> b < 0 \<or> 255 < b")
  case True
  then show ?thesis
    by (auto simp: fillColor_def checkValidKeyIndex_def checkRGBValue_def throwsValidationError_def)
next
  case False
  obtain pixels where "Buffer_alloc_fill (ICON_BYTES m) (Buffer_from [r, g, b]) = Inr pixels"
    using Buffer_alloc_fill_ok[OF ICON_BYTES_nonneg] by blast
  with False show ?thesis
    by (auto simp: fillColor_def checkValidKeyIndex_def checkRGBValue_def throwsValidationError_def
          fillImageRange_not_thrown split: completion.splits)
qed

lemma fillImage_throws:
  "throwsValidationError (fillImage m s k buf) s
     = (k < 0 \<or> NUM_KEYS m \<le> k \<or> int (length buf) \<noteq> ICON_BYTES m)"
  by (auto simp: fillImage_def checkValidKeyIndex_def throwsValidationError_def
        fillImageRange_not_thrown split: completion.splits)

lemma clearKey_throws:
  "throwsValidationError (clearKey m s k) s = (k < 0 \<or> NUM_KEYS m \<le> k)"
proof (cases "k < 0 \<or> NUM_KEYS m \<le> k")
  case True
  then show ?thesis
    by (auto simp: clearKey_def checkValidKeyIndex_def throwsValidationError_def)
next
  case False
  then have "clearKey m s k = fillColor m s k 0 0 0"
    by (simp add: clearKey_def checkValidKeyIndex_def)
  with False fillColor_throws[of m s k 0 0 0] show ?thesis by simp
qed

lemma fillColor_valid:
  assumes "0 \<le> k" "k < NUM_KEYS m" "0 \<le> transformKeyIndex m k" "transformKeyIndex m k < NUM_KEYS m"
      and "0 \<le> r" "r \<le> 255" "0 \<le> g" "g \<le> 255" "0 \<le> b" "b \<le> 255"
  shows "\<not> raisesValidationError (fillColor m s k r g b)"
proof -
  obtain pixels where "Buffer_alloc_fill (ICON_BYTES m) (Buffer_from [r, g, b]) = Inr pixels"
    using Buffer_alloc_fill_ok[OF ICON_BYTES_nonneg] by blast
  then have "fillColor m s k r g b
      = fillImageRange m s (transformKeyIndex m k) pixels 0 (get_ICON_SIZE m * 3)"
    using assms by (simp add: fillColor_def checkValidKeyIndex_def checkRGBValue_def)
  then show ?thesis using fillImageRange_valid_key[OF assms(3,4)] by simp
qed

lemma fillImage_valid:
  assumes "0 \<le> k" "k < NUM_KEYS m" "0 \<le> transformKeyIndex m k" "transformKeyIndex m k < NUM_KEYS m"
      and "int (length buf) = ICON_BYTES m"
  shows "\<not> raisesValidationError (fillImage m s k buf)"
proof -
  have "fillImage m s k buf
      = fillImageRange m s (transformKeyIndex m k) buf 0 (get_ICON_SIZE m * 3)"
    using assms by (simp add: fillImage_def checkValidKeyIndex_def)
  then show ?thesis using fillImageRange_valid_key[OF assms(3,4)] by simp
qed

lemma clearKey_valid:
  assumes "0 \<le> k" "k < NUM_KEYS m" "0 \<le> transformKeyIndex m k" "transformKeyIndex m k < NUM_KEYS m"
  shows "\<not> raisesValidationError (clearKey m s k)"
proof -
  have "clearKey m s k = fillColor m s k 0 0 0"
    using assms by (simp add: clearKey_def checkValidKeyIndex_def)
  then show ?thesis using fillColor_valid[OF assms, of 0 0 0 s] by simp
qed

text \<open>
  Claim C4: \<open>fillColor\<close>, \<open>fillImage\<close> and \<open>clearKey\<close> throw a validation error
  synchronously, with no call made on the device, if and only if the key index is outside
  \<open>[0, numKeys)\<close>, or (for \<open>fillColor\<close>) a channel is outside \<open>[0, 255]\<close>, or (for
  \<open>fillImage\<close>) the buffer length differs from \<open>iconBytes\<close>. For a key in
  \<open>[0, numKeys)\<close> that the model's key transform maps into \<open>[0, numKeys)\<close>, with valid
  channels or a buffer of exactly \<open>iconBytes\<close> bytes, no validation error is raised at
  all, neither thrown nor through the promise.
\<close>

theorem C4_validation:
  "throwsValidationError (fillColor m s k r g b) s
     = (k < 0 \<or> NUM_KEYS m \<le> k \<or> r < 0 \<or> 255 < r \<or> g < 0 \<or> 255 < g \<or> b < 0 \<or> 255 < b)
   \<and> throwsValidationError (fillImage m s k imageBuffer) s
     = (k < 0 \<or> NUM_KEYS m \<le> k \<or> int (length imageBuffer) \<noteq> ICON_BYTES m)
   \<and> throwsValidationError (clearKey m s k) s = (k < 0 \<or> NUM_KEYS m \<le> k)
   \<and> (0 \<le> k \<and> k < NUM_KEYS m
        \<and> 0 \<le> transformKeyIndex m k \<and> transformKeyIndex m k < NUM_KEYS m \<longrightarrow>
          (0 \<le> r \<and> r \<le> 255 \<and> 0 \<le> g \<and> g \<le> 255 \<and> 0 \<le> b \<and> b \<le> 255 \<longrightarrow>
             \<not> raisesValidationError (fillColor m s k r g b))
        \<and> (int (length imageBuffer) = ICON_BYTES m \<longrightarrow>
             \<not> raisesValidationError (fillImage m s k imageBuffer))
        \<and> \<not> raisesValidationError (clearKey m s k))"
  using fillColor_throws[of m s k r g b] fillImage_throws[of m s k imageBuffer]
        clearKey_throws[of m s k] fillColor_valid[of k m r g b s]
        fillImage_valid[of k m imageBuffer s] clearKey_valid[of k m s]
  by blast

text \<open>C4 on the small model: invalid keys, channels and lengths, and the valid key 5.\<close>

theorem C4_validation_witness:
  "throwsValidationError (fillColor demo_model demo_state 6 0 0 0) demo_state
   \<and> throwsValidationError (fillColor demo_model demo_state 0 0 256 0) demo_state
   \<and> throwsValidationError (fillImage demo_model demo_state (- 1) [1, 2, 3]) demo_state
   \<and> throwsValidationError (fillImage demo_model demo_state 0 [1, 2]) demo_state
   \<and> throwsValidationError (fillImage demo_model demo_state 0 [1, 2, 3, 4]) demo_state
   \<and> throwsValidationError (clearKey demo_model demo_state 6) demo_state
   \<and> \<not> raisesValidationError (fillColor demo_model demo_state 5 1 2 3)
   \<and> \<not> raisesValidationError (fillImage demo_model demo_state 5 [1, 2, 3])
   \<and> \<not> raisesValidationError (clearKey demo_model demo_state 5)"
proof -
  have N: "NUM_KEYS demo_model = 6" "ICON_BYTES demo_model = 3"
          "transformKeyIndex demo_model 5 = 3"
    by (simp_all add: NUM_KEYS_def KEY_COLUMNS_def KEY_ROWS_def ICON_BYTES_def get_ICON_SIZE_def
          demo_model_def demo_properties_def)
  show ?thesis
    using C4_validation[of demo_model demo_state 6 0 0 0 "[]"]
          C4_validation[of demo_model demo_state 0 0 256 0 "[1, 2]"]
          C4_validation[of demo_model demo_state 0 0 0 0 "[1, 2, 3, 4]"]
          C4_validation[of demo_model demo_state "- 1" 0 0 0 "[1, 2, 3]"]
          C4_validation[of demo_model demo_state 5 1 2 3 "[1, 2, 3]"]
    by (simp add: N)
qed

section \<open>Properties of the button state tracker\<close>

lemma input_loop_same:
  "(\<And>l. i \<le> l \<Longrightarrow> l < NUM_KEYS m \<Longrightarrow> ks (transformKeyIndex m l) = Some (keyPressed_at data l))
   \<Longrightarrow> input_loop m data i ks emitted = (ks, emitted)"
proof (induction m data i ks emitted rule: input_loop.induct)
  case (1 m data i ks emitted)
  show ?case
  proof (cases "i < NUM_KEYS m")
    case False
    then show ?thesis by (subst input_loop.simps) simp
  next
    case True
    have same: "ks (transformKeyIndex m i) = Some (keyPressed_at data i)"
      using "1.prems"[of i] True by simp
    have "input_loop m data i ks emitted = input_loop m data (i + 1) ks emitted"
      using True same by (subst input_loop.simps) (simp add: Let_def)
    also have "\<dots> = (ks, emitted)"
      using "1.prems" by (intro "1.IH"(2)[OF True refl refl refl]) (simp_all add: same)
    finally show ?thesis .
  qed
qed

lemma input_loop_flip:
  "j < NUM_KEYS m \<Longrightarrow>
     (\<And>l. j < l \<Longrightarrow> l < NUM_KEYS m \<Longrightarrow> transformKeyIndex m l \<noteq> transformKeyIndex m j) \<Longrightarrow>
     i \<le> j \<Longrightarrow>
     (\<And>l. i \<le> l \<Longrightarrow> l < NUM_KEYS m \<Longrightarrow> l \<noteq> j \<Longrightarrow>
            ks (transformKeyIndex m l) = Some (keyPressed_at data l)) \<Longrightarrow>
     ks (transformKeyIndex m j) = Some (\<not> keyPressed_at data j) \<Longrightarrow>
     input_loop m data i ks emitted
       = (ks(transformKeyIndex m j \<mapsto> keyPressed_at data j),
          emitted @ [if keyPressed_at data j then down (transformKeyIndex m j)
                     else up (transformKeyIndex m j)])"
proof (induction m data i ks emitted rule: input_loop.induct)
  case (1 m data i ks emitted)
  have iN: "i < NUM_KEYS m" using "1.prems"(1,3) by simp
  show ?case
  proof (cases "i = j")
    case True
    let ?ks = "ks(transformKeyIndex m j \<mapsto> keyPressed_at data j)"
    let ?ev = "emitted @ [if keyPressed_at data j then down (transformKeyIndex m j)
                          else up (transformKeyIndex m j)]"
    have "input_loop m data i ks emitted = input_loop m data (j + 1) ?ks ?ev"
      using True iN "1.prems"(5) by (subst input_loop.simps) (simp add: Let_def)
    also have "\<dots> = (?ks, ?ev)"
    proof (rule input_loop_same)
      fix l assume l: "j + 1 \<le> l" "l < NUM_KEYS m"
      then have "transformKeyIndex m l \<noteq> transformKeyIndex m j" using "1.prems"(2) by simp
      moreover have "ks (transformKeyIndex m l) = Some (keyPressed_at data l)"
        using l True "1.prems"(4)[of l] by simp
      ultimately show "?ks (transformKeyIndex m l) = Some (keyPressed_at data l)" by simp
    qed
    finally show ?thesis .
  next
    case False
    then have lt: "i + 1 \<le> j" using "1.prems"(3) by simp
    have same: "ks (transformKeyIndex m i) = Some (keyPressed_at data i)"
      using "1.prems"(4)[of i] iN False by simp
    have "input_loop m data i ks emitted = input_loop m data (i + 1) ks emitted"
      using iN same by (subst input_loop.simps) (simp add: Let_def)
    also have "\<dots> = (ks(transformKeyIndex m j \<mapsto> keyPressed_at data j),
          emitted @ [if keyPressed_at data j then down (transformKeyIndex m j)
                     else up (transformKeyIndex m j)])"
      using lt "1.prems" by (intro "1.IH"(2)[OF iN refl refl refl]) (simp_all add: same)
    finally show ?thesis .
  qed
qed


lemma onInput_same:
  assumes "\<forall>i. 0 \<le> i \<and> i < NUM_KEYS m \<longrightarrow>
             keyState s (transformKeyIndex m i) = Some (keyPressed_at data i)"
  shows "onInput m s data = ([], s)"
proof -
  have "input_loop m data 0 (keyState s) [] = (keyState s, [])"
    using assms by (intro input_loop_same) simp
  then show ?thesis by (simp add: onInput_def)
qed

lemma onInput_flip:
  assumes inj: "inj_on (transformKeyIndex m) {0..<NUM_KEYS m}"
      and j: "0 \<le> j" "j < NUM_KEYS m"
      and others: "\<forall>i. 0 \<le> i \<and> i < NUM_KEYS m \<and> i \<noteq> j \<longrightarrow>
             keyState s (transformKeyIndex m i) = Some (keyPressed_at data i)"
      and flipped: "keyState s (transformKeyIndex m j) = Some (\<not> keyPressed_at data j)"
  shows "onInput m s data
           = ([if keyPressed_at data j then down (transformKeyIndex m j)
               else up (transformKeyIndex m j)],
              s\<lparr>keyState := (keyState s)(transformKeyIndex m j \<mapsto> keyPressed_at data j)\<rparr>)"
proof -
  have distinct: "\<And>l. j < l \<Longrightarrow> l < NUM_KEYS m \<Longrightarrow> transformKeyIndex m l \<noteq> transformKeyIndex m j"
  proof
    fix l assume l: "j < l" "l < NUM_KEYS m" "transformKeyIndex m l = transformKeyIndex m j"
    with inj j have "l = j" by (auto dest!: inj_onD[where x = l and y = j])
    with l show False by simp
  qed
  have "input_loop m data 0 (keyState s) []
      = ((keyState s)(transformKeyIndex m j \<mapsto> keyPressed_at data j),
         [] @ [if keyPressed_at data j then down (transformKeyIndex m j)
               else up (transformKeyIndex m j)])"
    using j others flipped distinct by (intro input_loop_flip) simp_all
  then show ?thesis by (simp add: onInput_def)
qed

text \<open>
  Claim C6: for every recorded state and every raw report, a report that agrees with the
  recorded state in every native slot yields no event and leaves the state as it is. When
  the key transform is injective on the native slots (the specification makes it a
  bijection) and the report differs from the recorded state in exactly one native slot
  \<open>j\<close>, a flip from 0 to 1 yields exactly one \<open>down\<close> event and a flip from 1 to 0
  exactly one \<open>up\<close> event, each carrying \<open>transformKeyIndex j\<close>, and the recorded state
  of that index, and of no other, becomes the new value.
\<close>

theorem C6_button_tracker:
  "((\<forall>i. 0 \<le> i \<and> i < NUM_KEYS m \<longrightarrow>
        keyState s (transformKeyIndex m i) = Some (keyPressed_at data i))
     \<longrightarrow> onInput m s data = ([], s))
   \<and> (inj_on (transformKeyIndex m) {0..<NUM_KEYS m} \<and> 0 \<le> j \<and> j < NUM_KEYS m
        \<and> (\<forall>i. 0 \<le> i \<and> i < NUM_KEYS m \<and> i \<noteq> j \<longrightarrow>
              keyState s (transformKeyIndex m i) = Some (keyPressed_at data i))
        \<and> keyState s (transformKeyIndex m j) = Some False \<and> keyPressed_at data j
     \<longrightarrow> onInput m s data
           = ([down (transformKeyIndex m j)],
              s\<lparr>keyState := (keyState s)(transformKeyIndex m j \<mapsto> True)\<rparr>))
   \<and> (inj_on (transformKeyIndex m) {0..<NUM_KEYS m} \<and> 0 \<le> j \<and> j < NUM_KEYS m
        \<and> (\<forall>i. 0 \<le> i \<and> i < NUM_KEYS m \<and> i \<noteq> j \<longrightarrow>
              keyState s (transformKeyIndex m i) = Some (keyPressed_at data i))
        \<and> keyState s (transformKeyIndex m j) = Some True \<and> \<not> keyPressed_at data j
     \<longrightarrow> onInput m s data
           = ([up (transformKeyIndex m j)],
              s\<lparr>keyState := (keyState s)(transformKeyIndex m j \<mapsto> False)\<rparr>))"
proof (intro conjI impI)
  assume "\<forall>i. 0 \<le> i \<and> i < NUM_KEYS m \<longrightarrow>
        keyState s (transformKeyIndex m i) = Some (keyPressed_at data i)"
  then show "onInput m s data = ([], s)" by (rule onInput_same)
next
  assume a: "inj_on (transformKeyIndex m) {0..<NUM_KEYS m} \<and> 0 \<le> j \<and> j < NUM_KEYS m
        \<and> (\<forall>i. 0 \<le> i \<and> i < NUM_KEYS m \<and> i \<noteq> j \<longrightarrow>
              keyState s (transformKeyIndex m i) = Some (keyPressed_at data i))
        \<and> keyState s (transformKeyIndex m j) = Some False \<and> keyPressed_at data j"
  then have "keyState s (transformKeyIndex m j) = Some (\<not> keyPressed_at data j)" by simp
  with a onInput_flip[of m j s data]
  show "onInput m s data
           = ([down (transformKeyIndex m j)],
              s\<lparr>keyState := (keyState s)(transformKeyIndex m j \<mapsto> True)\<rparr>)" by simp
next
  assume a: "inj_on (transformKeyIndex m) {0..<NUM_KEYS m} \<and> 0 \<le> j \<and> j < NUM_KEYS m
        \<and> (\<forall>i. 0 \<le> i \<and> i < NUM_KEYS m \<and> i \<noteq> j \<longrightarrow>
              keyState s (transformKeyIndex m i) = Some (keyPressed_at data i))
        \<and> keyState s (transformKeyIndex m j) = Some True \<and> \<not> keyPressed_at data j"
  then have "keyState s (transformKeyIndex m j) = Some (\<not> keyPressed_at data j)" by simp
  with a onInput_flip[of m j s data]
  show "onInput m s data
           = ([up (transformKeyIndex m j)],
              s\<lparr>keyState := (keyState s)(transformKeyIndex m j \<mapsto> False)\<rparr>)" by simp
qed

subsection \<open>The small model\<close>

lemma demo_facts:
  "NUM_KEYS demo_model = 6"
  "ICON_BYTES demo_model = 3"
  "KEY_COLUMNS demo_model = 3"
  "KEY_ROWS demo_model = 2"
  "get_ICON_SIZE demo_model = 1"
  "transformKeyIndex demo_model i = (i div 3) * 3 + (2 - i mod 3)"
  by (simp_all add: NUM_KEYS_def KEY_COLUMNS_def KEY_ROWS_def ICON_BYTES_def get_ICON_SIZE_def
        demo_model_def demo_properties_def)

lemma six_cases: "0 \<le> i \<Longrightarrow> i < 6 \<Longrightarrow> i = 0 \<or> i = 1 \<or> i = 2 \<or> i = 3 \<or> i = 4 \<or> (i::int) = 5"
  by linarith

lemma demo_transform_values:
  "transformKeyIndex demo_model 0 = 2" "transformKeyIndex demo_model 1 = 1"
  "transformKeyIndex demo_model 2 = 0" "transformKeyIndex demo_model 3 = 5"
  "transformKeyIndex demo_model 4 = 4" "transformKeyIndex demo_model 5 = 3"
  by (simp_all add: demo_facts)

lemma demo_inj: "inj_on (transformKeyIndex demo_model) {0..<NUM_KEYS demo_model}"
  unfolding inj_on_def demo_facts(1)
proof (intro ballI impI)
  fix x y :: int
  assume "x \<in> {0..<6}" "y \<in> {0..<6}"
  then have x: "x = 0 \<or> x = 1 \<or> x = 2 \<or> x = 3 \<or> x = 4 \<or> x = 5"
        and y: "y = 0 \<or> y = 1 \<or> y = 2 \<or> y = 3 \<or> y = 4 \<or> y = 5"
    using six_cases[of x] six_cases[of y] by simp_all
  assume "transformKeyIndex demo_model x = transformKeyIndex demo_model y"
  with x y show "x = y" by (elim disjE) (simp_all add: demo_transform_values)
qed

text \<open>C6 on the small model: an idle report, native slot 2 pressed (logical key 0), and
  released again.\<close>

theorem C6_button_tracker_witness:
  "onInput demo_model demo_state [0, 0, 0, 0, 0, 0] = ([], demo_state)
   \<and> onInput demo_model demo_state [0, 0, 1, 0, 0, 0]
       = ([down 0], demo_state\<lparr>keyState := (keyState demo_state)(0 \<mapsto> True)\<rparr>)
   \<and> onInput demo_model (demo_state\<lparr>keyState := (keyState demo_state)(0 \<mapsto> True)\<rparr>)
         [0, 0, 0, 0, 0, 0]
       = ([up 0], demo_state\<lparr>keyState := (keyState demo_state)(0 \<mapsto> False)\<rparr>)"
proof -
  let ?s1 = "demo_state\<lparr>keyState := (keyState demo_state)(0 \<mapsto> True)\<rparr>"
  have t: "\<And>i. 0 \<le> i \<Longrightarrow> i < 6 \<Longrightarrow>
             0 \<le> transformKeyIndex demo_model i \<and> transformKeyIndex demo_model i < 6
             \<and> (transformKeyIndex demo_model i = 0) = (i = 2)"
  proof -
    fix i :: int
    assume "0 \<le> i" "i < 6"
    then have "i = 0 \<or> i = 1 \<or> i = 2 \<or> i = 3 \<or> i = 4 \<or> i = 5" by (rule six_cases)
    then show "0 \<le> transformKeyIndex demo_model i \<and> transformKeyIndex demo_model i < 6
             \<and> (transformKeyIndex demo_model i = 0) = (i = 2)"
      by (elim disjE) (simp_all add: demo_transform_values)
  qed
  have ks: "\<And>k. keyState demo_state k = (if 0 \<le> k \<and> k < 6 then Some False else None)"
    by (simp add: demo_state_def)
  have kp0: "\<And>i. \<not> keyPressed_at [0, 0, 0, 0, 0, 0] i"
  proof -
    fix i :: int
    show "\<not> keyPressed_at [0, 0, 0, 0, 0, 0] i"
      using six_cases[of i] by (auto simp: keyPressed_at_def)
  qed
  have kp1: "\<And>i. keyPressed_at [0, 0, 1, 0, 0, 0] i = (i = 2)"
  proof -
    fix i :: int
    show "keyPressed_at [0, 0, 1, 0, 0, 0] i = (i = 2)"
      using six_cases[of i] by (auto simp: keyPressed_at_def)
  qed
  have h0: "\<forall>i. 0 \<le> i \<and> i < NUM_KEYS demo_model \<longrightarrow>
        keyState demo_state (transformKeyIndex demo_model i)
          = Some (keyPressed_at [0, 0, 0, 0, 0, 0] i)"
    using t by (simp add: demo_facts(1) ks kp0 kp1)
  have h1: "\<forall>i. 0 \<le> i \<and> i < NUM_KEYS demo_model \<and> i \<noteq> 2 \<longrightarrow>
        keyState demo_state (transformKeyIndex demo_model i)
          = Some (keyPressed_at [0, 0, 1, 0, 0, 0] i)"
    using t by (simp add: demo_facts(1) ks kp0 kp1)
  have h2: "\<forall>i. 0 \<le> i \<and> i < NUM_KEYS demo_model \<and> i \<noteq> 2 \<longrightarrow>
        keyState ?s1 (transformKeyIndex demo_model i)
          = Some (keyPressed_at [0, 0, 0, 0, 0, 0] i)"
    using t by (simp add: demo_facts(1) ks kp0 kp1)
  have t2: "transformKeyIndex demo_model 2 = 0" by (simp add: demo_facts)
  have p1: "keyPressed_at [0, 0, 1, 0, 0, 0] 2" "\<not> keyPressed_at [0, 0, 0, 0, 0, 0] 2"
    by (simp_all add: kp0 kp1)
  have a: "onInput demo_model demo_state [0, 0, 0, 0, 0, 0] = ([], demo_state)"
    using C6_button_tracker[of demo_model demo_state "[0, 0, 0, 0, 0, 0]" 2] h0 by blast
  have b: "onInput demo_model demo_state [0, 0, 1, 0, 0, 0]
       = ([down 0], demo_state\<lparr>keyState := (keyState demo_state)(0 \<mapsto> True)\<rparr>)"
    using C6_button_tracker[of demo_model demo_state "[0, 0, 1, 0, 0, 0]" 2] h1 demo_inj p1
    by (simp add: t2 demo_facts(1) ks)
  have c: "onInput demo_model ?s1 [0, 0, 0, 0, 0, 0]
       = ([up 0], demo_state\<lparr>keyState := (keyState demo_state)(0 \<mapsto> False)\<rparr>)"
    using C6_button_tracker[of demo_model ?s1 "[0, 0, 0, 0, 0, 0]" 2] h2 demo_inj p1
    by (simp add: t2 demo_facts(1))
  from a b c show ?thesis by blast
qed

section \<open>Properties of fillPanel\<close>

subsection \<open>The loops of fillPanel as a run over the expected fills\<close>

lemma fillPanel_columns_step:
  "fillPanel_columns m s buf row column =
     (if column < KEY_COLUMNS m then
        (case fillImageRange m s (panelKeyIndex m row column) buf (panelOffset m row column)
                (panelStride m) of
           (Resolved u, s') \<Rightarrow> fillPanel_columns m s' buf row (column + 1)
         | (Rejected e, s') \<Rightarrow> (Rejected e, s')
         | (Thrown e, s') \<Rightarrow> (Rejected e, s'))
      else (Resolved (), s))"
proof -
  have i: "row * KEY_COLUMNS m + (KEY_COLUMNS m - column - 1)
         = row * KEY_COLUMNS m + (KEY_COLUMNS m - 1 - column)" by simp
  have o: "get_ICON_SIZE m * 3 * KEY_COLUMNS m * row * get_ICON_SIZE m + column * get_ICON_SIZE m * 3
         = row * (get_ICON_SIZE m * 3 * KEY_COLUMNS m) * get_ICON_SIZE m + column * get_ICON_SIZE m * 3"
    by simp
  show ?thesis
    by (subst fillPanel_columns.simps)
       (simp only: Let_def panelKeyIndex_def panelOffset_def panelStride_def i o)
qed

lemma fillPanel_columns_runFills:
  "fillPanel_columns m s buf row column
     = runFills m s buf (map (panelCell m row) [column..KEY_COLUMNS m - 1])"
proof (induction "nat (KEY_COLUMNS m - column)" arbitrary: s column)
  case 0
  then have "\<not> column < KEY_COLUMNS m" by simp
  then show ?case by (subst fillPanel_columns_step) simp
next
  case (Suc n)
  then have lt: "column < KEY_COLUMNS m" by simp
  then have up: "[column..KEY_COLUMNS m - 1] = column # [column + 1..KEY_COLUMNS m - 1]"
    by (simp add: upto_rec1)
  have IH: "\<And>s'. fillPanel_columns m s' buf row (column + 1)
      = runFills m s' buf (map (panelCell m row) [column + 1..KEY_COLUMNS m - 1])"
    using Suc(2) by (intro Suc(1)) simp
  show ?case
    by (subst fillPanel_columns_step) (simp add: lt up panelCell_def IH split: prod.splits completion.splits)
qed

lemma runFills_not_thrown: "fst (runFills m s buf fills) \<noteq> Thrown e"
  by (induction fills arbitrary: s) (auto split: prod.splits completion.splits)

lemma runFills_append:
  "runFills m s buf (xs @ ys) =
     (case runFills m s buf xs of
        (Resolved u, s') \<Rightarrow> runFills m s' buf ys
      | (Rejected e, s') \<Rightarrow> (Rejected e, s')
      | (Thrown e, s') \<Rightarrow> (Rejected e, s'))"
  by (induction xs arbitrary: s) (auto split: prod.splits completion.splits)

lemma fillPanel_rows_step:
  "fillPanel_rows m s buf row =
     (if row < KEY_ROWS m then
        (case runFills m s buf (map (panelCell m row) [0..KEY_COLUMNS m - 1]) of
           (Resolved u, s') \<Rightarrow> fillPanel_rows m s' buf (row + 1)
         | (Rejected e, s') \<Rightarrow> (Rejected e, s')
         | (Thrown e, s') \<Rightarrow> (Rejected e, s'))
      else (Resolved (), s))"
  by (subst fillPanel_rows.simps) (simp only: fillPanel_columns_runFills)

lemma fillPanel_rows_runFills:
  "fillPanel_rows m s buf row
     = runFills m s buf
         (concat (map (\<lambda>r. map (panelCell m r) [0..KEY_COLUMNS m - 1]) [row..KEY_ROWS m - 1]))"
proof (induction "nat (KEY_ROWS m - row)" arbitrary: s row)
  case 0
  then have "\<not> row < KEY_ROWS m" by simp
  then show ?case by (subst fillPanel_rows_step) simp
next
  case (Suc n)
  then have lt: "row < KEY_ROWS m" by simp
  then have up: "[row..KEY_ROWS m - 1] = row # [row + 1..KEY_ROWS m - 1]"
    by (simp add: upto_rec1)
  have IH: "\<And>s'. fillPanel_rows m s' buf (row + 1)
      = runFills m s' buf
          (concat (map (\<lambda>r. map (panelCell m r) [0..KEY_COLUMNS m - 1]) [row + 1..KEY_ROWS m - 1]))"
    using Suc(2) by (intro Suc(1)) simp
  show ?case
    by (subst fillPanel_rows_step) (simp add: lt up IH runFills_append split: prod.splits completion.splits)
qed

lemma fillPanel_runFills:
  "int (length buf) = ICON_BYTES m * NUM_KEYS m \<Longrightarrow>
   fillPanel m s buf = runFills m s buf (expectedPanelFills m)"
  by (simp add: fillPanel_def fillPanel_rows_runFills expectedPanelFills_def)


lemma runFills_frame: "keyState (snd (runFills m s buf fills)) = keyState s"
proof (induction fills arbitrary: s)
  case Nil
  show ?case by simp
next
  case (Cons f fills)
  obtain k off st where f: "f = (k, off, st)" by (cases f)
  obtain c s' where r: "fillImageRange m s k buf off st = (c, s')" by (cases "fillImageRange m s k buf off st")
  then have "keyState s' = keyState s" using fillImageRange_frame(1)[of m s k buf off st] by simp
  with Cons r f show ?case by (cases c) simp_all
qed

lemma runFills_trace:
  "\<exists>n \<le> length fills. fillCalls (snd (runFills m s buf fills)) = fillCalls s @ take n fills
       \<and> (fills \<noteq> [] \<longrightarrow> 1 \<le> n)
       \<and> (fst (runFills m s buf fills) = Resolved () \<longrightarrow> n = length fills)"
proof (induction fills arbitrary: s)
  case Nil
  show ?case by simp
next
  case (Cons f fills)
  obtain k off st where f: "f = (k, off, st)" by (cases f)
  obtain c s' where r: "fillImageRange m s k buf off st = (c, s')" by (cases "fillImageRange m s k buf off st")
  then have s': "fillCalls s' = fillCalls s @ [f]"
    using fillImageRange_frame(3)[of m s k buf off st] f by simp
  show ?case
  proof (cases c)
    case (Resolved u)
    from Cons[of s'] obtain n where n: "n \<le> length fills"
        "fillCalls (snd (runFills m s' buf fills)) = fillCalls s' @ take n fills"
        "fst (runFills m s' buf fills) = Resolved () \<longrightarrow> n = length fills" by blast
    have "fillCalls (snd (runFills m s buf (f # fills))) = fillCalls s @ take (Suc n) (f # fills)"
      using r f Resolved n(2) s' by simp
    moreover have "fst (runFills m s buf (f # fills)) = Resolved () \<longrightarrow> Suc n = length (f # fills)"
      using r f Resolved n(3) by simp
    ultimately show ?thesis using n(1) by (intro exI[of _ "Suc n"]) simp
  next
    case (Rejected e)
    then have "fillCalls (snd (runFills m s buf (f # fills))) = fillCalls s @ take 1 (f # fills)"
      using r f s' by simp
    moreover have "fst (runFills m s buf (f # fills)) \<noteq> Resolved ()" using r f Rejected by simp
    ultimately show ?thesis by (intro exI[of _ 1]) simp
  next
    case (Thrown e)
    then have "fillCalls (snd (runFills m s buf (f # fills))) = fillCalls s @ take 1 (f # fills)"
      using r f s' by simp
    moreover have "fst (runFills m s buf (f # fills)) \<noteq> Resolved ()" using r f Thrown by simp
    ultimately show ?thesis by (intro exI[of _ 1]) simp
  qed
qed

lemma runFills_all_ok:
  assumes "\<And>s' k off st. (k, off, st) \<in> set fills \<Longrightarrow> fst (fillImageRange m s' k buf off st) = Resolved ()"
  shows "fst (runFills m s buf fills) = Resolved ()
       \<and> fillCalls (snd (runFills m s buf fills)) = fillCalls s @ fills"
  using assms
proof (induction fills arbitrary: s)
  case Nil
  show ?case by simp
next
  case (Cons f fills)
  obtain k off st where f: "f = (k, off, st)" by (cases f)
  obtain c s' where r: "fillImageRange m s k buf off st = (c, s')" by (cases "fillImageRange m s k buf off st")
  have "fst (fillImageRange m s k buf off st) = Resolved ()" using Cons.prems f by simp
  with r have c: "c = Resolved ()" by simp
  have s': "fillCalls s' = fillCalls s @ [f]"
    using fillImageRange_frame(3)[of m s k buf off st] f r by simp
  have "fst (runFills m s' buf fills) = Resolved ()
       \<and> fillCalls (snd (runFills m s' buf fills)) = fillCalls s' @ fills"
    using Cons.prems by (intro Cons.IH) simp
  with r f c s' show ?case by simp
qed

subsection \<open>Row-major order\<close>

lemma length_rows:
  "0 \<le> R \<Longrightarrow> 0 \<le> C \<Longrightarrow>
   length (concat (map (\<lambda>r. map (f r) [0..C - 1]) [0..R - 1])) = nat (R * C)"
proof (induction "nat R" arbitrary: R)
  case 0
  then show ?case by simp
next
  case (Suc n)
  then have R: "0 \<le> R - 1" "n = nat (R - 1)" by simp_all
  have up: "[0..R - 1] = [0..R - 1 - 1] @ [R - 1]" using R(1) by (rule upto_rec2)
  have "length (concat (map (\<lambda>r. map (f r) [0..C - 1]) [0..R - 1 - 1])) = nat ((R - 1) * C)"
    using R Suc.prems by (intro Suc.hyps(1)) simp_all
  moreover have "nat ((R - 1) * C) + nat C = nat (R * C)"
  proof -
    have "0 \<le> (R - 1) * C" using R(1) Suc.prems(2) by simp
    then have "nat ((R - 1) * C) + nat C = nat ((R - 1) * C + C)"
      using Suc.prems(2) by (simp add: nat_add_distrib)
    also have "(R - 1) * C + C = R * C" by (simp add: algebra_simps)
    finally show ?thesis .
  qed
  ultimately show ?case using Suc.prems(2) by (simp add: up)
qed

lemma nth_rows:
  "0 \<le> row \<Longrightarrow> row < R \<Longrightarrow> 0 \<le> col \<Longrightarrow> col < C \<Longrightarrow>
   concat (map (\<lambda>r. map (f r) [0..C - 1]) [0..R - 1]) ! nat (row * C + col) = f row col"
proof (induction "nat R" arbitrary: R)
  case 0
  then show ?case by simp
next
  case (Suc n)
  then have R: "0 \<le> R - 1" "n = nat (R - 1)" by simp_all
  have C: "0 \<le> C" using Suc.prems by simp
  let ?A = "concat (map (\<lambda>r. map (f r) [0..C - 1]) [0..R - 1 - 1])"
  have up: "[0..R - 1] = [0..R - 1 - 1] @ [R - 1]" using R(1) by (rule upto_rec2)
  have lenA: "length ?A = nat ((R - 1) * C)" using R(1) C by (rule length_rows)
  have all: "concat (map (\<lambda>r. map (f r) [0..C - 1]) [0..R - 1]) = ?A @ map (f (R - 1)) [0..C - 1]"
    by (simp add: up)
  show ?case
  proof (cases "row < R - 1")
    case True
    then have "(row + 1) * C \<le> (R - 1) * C" using C by (intro mult_right_mono) simp_all
    then have "row * C + col < (R - 1) * C" using Suc.prems(4) by (simp add: algebra_simps)
    moreover have "0 \<le> row * C + col" using Suc.prems C by simp
    ultimately have "nat (row * C + col) < length ?A" using lenA by simp
    then have "(?A @ map (f (R - 1)) [0..C - 1]) ! nat (row * C + col) = ?A ! nat (row * C + col)"
      by (simp add: nth_append)
    also have "\<dots> = f row col"
      using R True Suc.prems by (intro Suc.hyps(1)) simp_all
    finally show ?thesis by (simp only: all)
  next
    case False
    then have row: "row = R - 1" using Suc.prems by simp
    have "0 \<le> (R - 1) * C" using R(1) C by simp
    then have idx: "nat (row * C + col) = length ?A + nat col"
      using lenA row Suc.prems(3) by (simp add: nat_add_distrib)
    have "(?A @ map (f (R - 1)) [0..C - 1]) ! nat (row * C + col)
          = map (f (R - 1)) [0..C - 1] ! nat col"
      unfolding idx by simp
    also have "\<dots> = f (R - 1) col" using Suc.prems(3,4) by simp
    finally show ?thesis by (simp only: all row)
  qed
qed

lemma length_expectedPanelFills:
  "0 \<le> KEY_ROWS m \<Longrightarrow> 0 \<le> KEY_COLUMNS m \<Longrightarrow>
   length (expectedPanelFills m) = nat (NUM_KEYS m)"
  by (simp add: expectedPanelFills_def length_rows NUM_KEYS_def mult.commute)

lemma nth_expectedPanelFills:
  "0 \<le> row \<Longrightarrow> row < KEY_ROWS m \<Longrightarrow> 0 \<le> col \<Longrightarrow> col < KEY_COLUMNS m \<Longrightarrow>
   expectedPanelFills m ! nat (row * KEY_COLUMNS m + col) = panelCell m row col"
  unfolding expectedPanelFills_def by (rule nth_rows)

lemma set_expectedPanelFills:
  "(k, off, st) \<in> set (expectedPanelFills m) \<Longrightarrow>
   \<exists>row col. 0 \<le> row \<and> row < KEY_ROWS m \<and> 0 \<le> col \<and> col < KEY_COLUMNS m
            \<and> (k, off, st) = panelCell m row col"
  by (auto simp: expectedPanelFills_def) blast


subsection \<open>The fills a panel makes\<close>

lemma sendPackets_accepting:
  "(\<And>calls c. device_accepts m calls c) \<Longrightarrow> fst (sendPackets m s packets) = Resolved ()"
  by (induction packets arbitrary: s) (simp_all add: device_call_def)

lemma fillImageRange_ok:
  assumes "0 \<le> k" "k < NUM_KEYS m" "k < 255"
      and "convertFillImage m buf off st = Some bytes"
      and "MAX_PAYLOAD_SIZE m = int P" "0 < P" "length bytes \<le> 65536 * P"
      and "\<And>calls c. device_accepts m calls c"
  shows "fst (fillImageRange m s k buf off st) = Resolved ()"
proof -
  have "generateFillImageWrites m k bytes = Inr (framedPackets P k 0 bytes)"
    using assms by (intro generateFillImageWrites_ok) simp_all
  then show ?thesis
    using assms by (simp add: fillImageRange_def checkValidKeyIndex_def Let_def sendPackets_accepting)
qed

lemma panelKeyIndex_range:
  assumes "0 \<le> row" "row < KEY_ROWS m" "0 \<le> col" "col < KEY_COLUMNS m"
  shows "0 \<le> panelKeyIndex m row col \<and> panelKeyIndex m row col < NUM_KEYS m"
proof -
  have "(row + 1) * KEY_COLUMNS m \<le> KEY_ROWS m * KEY_COLUMNS m"
    using assms by (intro mult_right_mono) simp_all
  then have hi: "row * KEY_COLUMNS m + KEY_COLUMNS m \<le> NUM_KEYS m"
    by (simp add: NUM_KEYS_def algebra_simps)
  have lo: "0 \<le> row * KEY_COLUMNS m" using assms by simp
  from hi lo assms show ?thesis by (simp add: panelKeyIndex_def)
qed

text \<open>
  Claim C7: for a panel buffer of exactly \<open>iconBytes * numKeys\<close> bytes on a model of
  \<open>columns \<times> rows\<close> keys on which each per-key fill completes, \<open>fillPanel\<close> resolves
  after issuing exactly \<open>numKeys\<close> fills, one after the other in row-major order, each on
  the state the previous one left; the fill for \<open>(row, col)\<close> addresses key
  \<open>row * columns + col\<close> (left to right) or \<open>row * columns + columns - 1 - col\<close> (right to
  left) and reads the source at offset \<open>row * stride * iconSize + col * iconSize * 3\<close> with
  \<open>stride = iconSize * 3 * columns\<close>; and on a right-to-left model the key addressed for
  column 0 is the one a left-to-right model addresses for column \<open>columns - 1\<close> of the
  same row.
\<close>

theorem C7_fillPanel:
  assumes "int (length imageBuffer) = ICON_BYTES m * NUM_KEYS m"
      and "0 \<le> KEY_COLUMNS m" and "0 \<le> KEY_ROWS m"
      and "\<forall>s' row col. 0 \<le> row \<and> row < KEY_ROWS m \<and> 0 \<le> col \<and> col < KEY_COLUMNS m \<longrightarrow>
             fst (fillImageRange m s' (panelKeyIndex m row col) imageBuffer
                    (panelOffset m row col) (panelStride m)) = Resolved ()"
  shows "fillPanel m s imageBuffer = runFills m s imageBuffer (expectedPanelFills m)
       \<and> fst (fillPanel m s imageBuffer) = Resolved ()
       \<and> fillCalls (snd (fillPanel m s imageBuffer)) = fillCalls s @ expectedPanelFills m
       \<and> length (expectedPanelFills m) = nat (NUM_KEYS m)
       \<and> (\<forall>row col. 0 \<le> row \<and> row < KEY_ROWS m \<and> 0 \<le> col \<and> col < KEY_COLUMNS m \<longrightarrow>
             expectedPanelFills m ! nat (row * KEY_COLUMNS m + col)
               = (if KEY_DIRECTION (deviceProperties m) = ltr then row * KEY_COLUMNS m + col
                  else row * KEY_COLUMNS m + (KEY_COLUMNS m - 1 - col),
                  row * (get_ICON_SIZE m * 3 * KEY_COLUMNS m) * get_ICON_SIZE m
                    + col * get_ICON_SIZE m * 3,
                  get_ICON_SIZE m * 3 * KEY_COLUMNS m))
       \<and> (KEY_DIRECTION (deviceProperties m) = rtl \<longrightarrow>
            (\<forall>row. panelKeyIndex m row 0
                   = panelKeyIndex (m\<lparr>deviceProperties := (deviceProperties m)\<lparr>KEY_DIRECTION := ltr\<rparr>\<rparr>)
                       row (KEY_COLUMNS m - 1)))"
proof -
  have run: "fillPanel m s imageBuffer = runFills m s imageBuffer (expectedPanelFills m)"
    using assms(1) by (rule fillPanel_runFills)
  have "\<And>s' k off st. (k, off, st) \<in> set (expectedPanelFills m) \<Longrightarrow>
          fst (fillImageRange m s' k imageBuffer off st) = Resolved ()"
  proof -
    fix s' k off st
    assume "(k, off, st) \<in> set (expectedPanelFills m)"
    then obtain row col where rc: "0 \<le> row" "row < KEY_ROWS m" "0 \<le> col" "col < KEY_COLUMNS m"
        and c: "(k, off, st) = panelCell m row col"
      using set_expectedPanelFills by blast
    from c have "k = panelKeyIndex m row col" "off = panelOffset m row col" "st = panelStride m"
      by (simp_all add: panelCell_def)
    with rc assms(4) show "fst (fillImageRange m s' k imageBuffer off st) = Resolved ()" by simp
  qed
  then have all: "fst (runFills m s imageBuffer (expectedPanelFills m)) = Resolved ()
       \<and> fillCalls (snd (runFills m s imageBuffer (expectedPanelFills m)))
           = fillCalls s @ expectedPanelFills m"
    by (rule runFills_all_ok)
  have len: "length (expectedPanelFills m) = nat (NUM_KEYS m)"
    using assms(2,3) by (intro length_expectedPanelFills)
  have cells: "\<forall>row col. 0 \<le> row \<and> row < KEY_ROWS m \<and> 0 \<le> col \<and> col < KEY_COLUMNS m \<longrightarrow>
             expectedPanelFills m ! nat (row * KEY_COLUMNS m + col)
               = (if KEY_DIRECTION (deviceProperties m) = ltr then row * KEY_COLUMNS m + col
                  else row * KEY_COLUMNS m + (KEY_COLUMNS m - 1 - col),
                  row * (get_ICON_SIZE m * 3 * KEY_COLUMNS m) * get_ICON_SIZE m
                    + col * get_ICON_SIZE m * 3,
                  get_ICON_SIZE m * 3 * KEY_COLUMNS m)"
    by (simp add: nth_expectedPanelFills panelCell_def panelKeyIndex_def panelOffset_def
          panelStride_def)
  have mirror: "KEY_DIRECTION (deviceProperties m) = rtl \<longrightarrow>
            (\<forall>row. panelKeyIndex m row 0
                   = panelKeyIndex (m\<lparr>deviceProperties := (deviceProperties m)\<lparr>KEY_DIRECTION := ltr\<rparr>\<rparr>)
                       row (KEY_COLUMNS m - 1))"
    by (simp add: panelKeyIndex_def KEY_COLUMNS_def)
  from run all len cells mirror show ?thesis by simp
qed

lemma demo_accepts: "device_accepts demo_model calls c"
  by (simp add: demo_model_def)

lemma demo_convert:
  "convertFillImage demo_model buf off st = Some (take 3 (drop (nat off) buf))"
  by (simp add: demo_model_def)

lemma demo_direction: "KEY_DIRECTION (deviceProperties demo_model) = rtl"
  by (simp add: demo_model_def demo_properties_def)

lemma demo_fills_ok:
  assumes "0 \<le> row" "row < KEY_ROWS demo_model" "0 \<le> col" "col < KEY_COLUMNS demo_model"
  shows "fst (fillImageRange demo_model s' (panelKeyIndex demo_model row col) buf
                (panelOffset demo_model row col) (panelStride demo_model)) = Resolved ()"
proof -
  have r: "0 \<le> panelKeyIndex demo_model row col \<and> panelKeyIndex demo_model row col < NUM_KEYS demo_model"
    using assms by (rule panelKeyIndex_range)
  then have "panelKeyIndex demo_model row col < 255" by (simp add: demo_facts)
  with r show ?thesis
    by (intro fillImageRange_ok[OF _ _ _ demo_convert demo_payload _ _ demo_accepts]) simp_all
qed

text \<open>C7 on the small model: six fills, the columns of each row mirrored.\<close>

theorem C7_fillPanel_witness:
  "int (length (replicate 18 (7::byte))) = ICON_BYTES demo_model * NUM_KEYS demo_model
   \<and> fst (fillPanel demo_model demo_state (replicate 18 7)) = Resolved ()
   \<and> fillCalls (snd (fillPanel demo_model demo_state (replicate 18 7)))
       = [(2, 0, 9), (1, 3, 9), (0, 6, 9), (5, 9, 9), (4, 12, 9), (3, 15, 9)]
   \<and> length (expectedPanelFills demo_model) = 6
   \<and> panelKeyIndex demo_model 1 0
       = panelKeyIndex (demo_model\<lparr>deviceProperties :=
                          (deviceProperties demo_model)\<lparr>KEY_DIRECTION := ltr\<rparr>\<rparr>) 1 2"
proof -
  have e: "expectedPanelFills demo_model
             = [(2, 0, 9), (1, 3, 9), (0, 6, 9), (5, 9, 9), (4, 12, 9), (3, 15, 9)]"
    by code_simp
  have l: "int (length (replicate 18 (7::byte))) = ICON_BYTES demo_model * NUM_KEYS demo_model"
    by (simp add: demo_facts)
  have d: "0 \<le> KEY_COLUMNS demo_model" "0 \<le> KEY_ROWS demo_model" by (simp_all add: demo_facts)
  have ok: "\<forall>s' row col. 0 \<le> row \<and> row < KEY_ROWS demo_model \<and> 0 \<le> col \<and> col < KEY_COLUMNS demo_model \<longrightarrow>
             fst (fillImageRange demo_model s' (panelKeyIndex demo_model row col) (replicate 18 7)
                    (panelOffset demo_model row col) (panelStride demo_model)) = Resolved ()"
    using demo_fills_ok by blast
  note c7 = C7_fillPanel[OF l d ok, of demo_state]
  from c7 have a: "fst (fillPanel demo_model demo_state (replicate 18 7)) = Resolved ()"
    by (elim conjE)
  from c7 have "fillCalls (snd (fillPanel demo_model demo_state (replicate 18 7)))
       = fillCalls demo_state @ expectedPanelFills demo_model"
    by (elim conjE)
  then have b: "fillCalls (snd (fillPanel demo_model demo_state (replicate 18 7)))
       = [(2, 0, 9), (1, 3, 9), (0, 6, 9), (5, 9, 9), (4, 12, 9), (3, 15, 9)]"
    by (simp only: e) (simp add: demo_state_def)
  from c7 have "length (expectedPanelFills demo_model) = nat (NUM_KEYS demo_model)"
    by (elim conjE)
  then have c: "length (expectedPanelFills demo_model) = 6" by (simp add: demo_facts)
  from c7 have "KEY_DIRECTION (deviceProperties demo_model) = rtl \<longrightarrow>
            (\<forall>row. panelKeyIndex demo_model row 0
                   = panelKeyIndex (demo_model\<lparr>deviceProperties :=
                          (deviceProperties demo_model)\<lparr>KEY_DIRECTION := ltr\<rparr>\<rparr>)
                       row (KEY_COLUMNS demo_model - 1))"
    by (elim conjE)
  then have m: "panelKeyIndex demo_model 1 0
       = panelKeyIndex (demo_model\<lparr>deviceProperties :=
                          (deviceProperties demo_model)\<lparr>KEY_DIRECTION := ltr\<rparr>\<rparr>) 1 2"
    using demo_direction by (simp add: demo_facts)
  from l a b c m show ?thesis by (intro conjI)
qed

subsection \<open>The panel and the key transform\<close>

lemma cell_key_range:
  assumes "0 \<le> row" "row < KEY_ROWS m" "0 \<le> col" "col < KEY_COLUMNS m"
  shows "0 \<le> row * KEY_COLUMNS m + col \<and> row * KEY_COLUMNS m + col < NUM_KEYS m"
proof -
  have "(row + 1) * KEY_COLUMNS m \<le> KEY_ROWS m * KEY_COLUMNS m"
    using assms by (intro mult_right_mono) simp_all
  then have hi: "row * KEY_COLUMNS m + KEY_COLUMNS m \<le> NUM_KEYS m"
    by (simp add: NUM_KEYS_def algebra_simps)
  have lo: "0 \<le> row * KEY_COLUMNS m" using assms by simp
  from hi lo assms show ?thesis by simp
qed

lemma fillImage_fillCalls:
  assumes "0 \<le> k" "k < NUM_KEYS m" "int (length buf) = ICON_BYTES m"
  shows "fillCalls (snd (fillImage m s k buf))
           = fillCalls s @ [(transformKeyIndex m k, 0, get_ICON_SIZE m * 3)]"
  using assms by (simp add: fillImage_def checkValidKeyIndex_def fillImageRange_frame)

lemma fillColor_fillCalls:
  assumes "0 \<le> k" "k < NUM_KEYS m" "0 \<le> r" "r \<le> 255" "0 \<le> g" "g \<le> 255" "0 \<le> b" "b \<le> 255"
  shows "fillCalls (snd (fillColor m s k r g b))
           = fillCalls s @ [(transformKeyIndex m k, 0, get_ICON_SIZE m * 3)]"
proof -
  obtain pixels where "Buffer_alloc_fill (ICON_BYTES m) (Buffer_from [r, g, b]) = Inr pixels"
    using Buffer_alloc_fill_ok[OF ICON_BYTES_nonneg] by blast
  then show ?thesis
    using assms
    by (simp add: fillColor_def checkValidKeyIndex_def checkRGBValue_def fillImageRange_frame)
qed

lemma panelCell_transform:
  "panelCell (m\<lparr>transformKeyIndex := t\<rparr>) = panelCell m"
  by (intro ext) (simp add: panelCell_def panelKeyIndex_def panelOffset_def
        panelStride_def KEY_COLUMNS_def get_ICON_SIZE_def)

lemma expectedPanelFills_transform:
  "expectedPanelFills (m\<lparr>transformKeyIndex := t\<rparr>) = expectedPanelFills m"
  by (simp add: expectedPanelFills_def panelCell_transform KEY_COLUMNS_def KEY_ROWS_def)

lemma generateFillImageWrites_loop_transform:
  "generateFillImageWrites_loop (m\<lparr>transformKeyIndex := t\<rparr>) k bs part rem res
     = generateFillImageWrites_loop m k bs part rem res"
proof (induction m k bs part rem res rule: generateFillImageWrites_loop.induct)
  case (1 m keyIndex byteBuffer part remainingBytes result)
  have G: "getFillImagePacketLength (m\<lparr>transformKeyIndex := t\<rparr>) = getFillImagePacketLength m"
    by simp
  have P: "MAX_PAYLOAD_SIZE (m\<lparr>transformKeyIndex := t\<rparr>) = MAX_PAYLOAD_SIZE m"
    by (simp add: MAX_PAYLOAD_SIZE_def)
  have L: "generateFillImageWrites_loop (m\<lparr>transformKeyIndex := t\<rparr>) keyIndex byteBuffer part remainingBytes result
     = (if remainingBytes > 0 then
        (case Buffer_alloc (getFillImagePacketLength m) of Inl e \<Rightarrow> Inl e | Inr packet \<Rightarrow>
         (let byteCount = min remainingBytes (MAX_PAYLOAD_SIZE m) in
          (case writeFillImageCommandHeader packet keyIndex part
                  (remainingBytes \<le> MAX_PAYLOAD_SIZE m) byteCount of
             Inl e \<Rightarrow> Inl e
           | Inr packet1 \<Rightarrow>
              (let byteOffset = int (length byteBuffer) - remainingBytes in
               (case Buffer_copy byteBuffer packet1 getFillImageCommandHeaderLength
                       byteOffset (byteOffset + byteCount) of
                  Inl e \<Rightarrow> Inl e
                | Inr packet2 \<Rightarrow>
                    generateFillImageWrites_loop (m\<lparr>transformKeyIndex := t\<rparr>) keyIndex byteBuffer (part + 1)
                      (remainingBytes - byteCount) (result @ [bufferToIntArray packet2]))))))
      else Inr result)"
    unfolding P[symmetric] G[symmetric] by (rule generateFillImageWrites_loop.simps)
  show ?case
    unfolding L
    by (subst (2) generateFillImageWrites_loop.simps)
       (auto simp add: Let_def "1.IH" split: sum.splits)
qed

lemma sendPackets_transform:
  "sendPackets (m\<lparr>transformKeyIndex := t\<rparr>) s packets = sendPackets m s packets"
  by (induction packets arbitrary: s) (simp_all add: device_call_def)

lemma fillImageRange_transform:
  "fillImageRange (m\<lparr>transformKeyIndex := t\<rparr>) s k buf off st = fillImageRange m s k buf off st"
  by (simp add: fillImageRange_def checkValidKeyIndex_def NUM_KEYS_def KEY_COLUMNS_def KEY_ROWS_def
        generateFillImageWrites_def generateFillImageWrites_loop_transform sendPackets_transform
        Let_def split: option.splits sum.splits)

lemma runFills_transform:
  "runFills (m\<lparr>transformKeyIndex := t\<rparr>) s buf fills = runFills m s buf fills"
  by (induction fills arbitrary: s) (auto simp add: fillImageRange_transform split: prod.splits completion.splits)

lemma fillPanel_transform:
  "fillPanel (m\<lparr>transformKeyIndex := t\<rparr>) s buf = fillPanel m s buf"
proof (cases "int (length buf) = ICON_BYTES m * NUM_KEYS m")
  case True
  then have "int (length buf) = ICON_BYTES (m\<lparr>transformKeyIndex := t\<rparr>) * NUM_KEYS (m\<lparr>transformKeyIndex := t\<rparr>)"
    by (simp add: ICON_BYTES_def NUM_KEYS_def KEY_COLUMNS_def KEY_ROWS_def get_ICON_SIZE_def)
  then have "fillPanel (m\<lparr>transformKeyIndex := t\<rparr>) s buf
               = runFills (m\<lparr>transformKeyIndex := t\<rparr>) s buf (expectedPanelFills (m\<lparr>transformKeyIndex := t\<rparr>))"
    by (rule fillPanel_runFills)
  also have "\<dots> = runFills m s buf (expectedPanelFills m)"
    by (simp only: runFills_transform expectedPanelFills_transform)
  also have "\<dots> = fillPanel m s buf" using True by (simp add: fillPanel_runFills)
  finally show ?thesis .
next
  case False
  then show ?thesis
    by (simp add: fillPanel_def ICON_BYTES_def NUM_KEYS_def KEY_COLUMNS_def KEY_ROWS_def get_ICON_SIZE_def)
qed

text \<open>
  Claim C10: for every model and grid position \<open>(row, col)\<close>, \<open>fillImage\<close> and
  \<open>fillColor\<close> for the logical key \<open>row * columns + col\<close> hand
  \<open>transformKeyIndex (row * columns + col)\<close> to \<open>fillImageRange\<close>. \<open>fillPanel\<close> is the same
  function whatever \<open>transformKeyIndex\<close> is. Its calls of \<open>fillImageRange\<close> are a non-empty
  initial part of the expected fills, all of them when it resolves; the first addresses key
  \<open>0\<close> (left to right) or \<open>columns - 1\<close> (right to left), and the call it makes for the
  position \<open>(row, col)\<close>, its call number \<open>row * columns + col\<close>, addresses
  \<open>row * columns + col\<close> (left to right) or \<open>row * columns + columns - 1 - col\<close> (right to
  left). Hence where the transform of the logical key differs from that index, the key
  \<open>fillImage\<close> addresses differs from the key \<open>fillPanel\<close> addresses for the same position.
\<close>

theorem C10_fillPanel_bypasses_transform:
  assumes "0 \<le> row" and "row < KEY_ROWS m" and "0 \<le> col" and "col < KEY_COLUMNS m"
      and "int (length imageBuffer) = ICON_BYTES m"
      and "int (length panelBuffer) = ICON_BYTES m * NUM_KEYS m"
      and "0 \<le> r \<and> r \<le> 255 \<and> 0 \<le> g \<and> g \<le> 255 \<and> 0 \<le> b \<and> b \<le> 255"
  shows "fillCalls (snd (fillImage m s (row * KEY_COLUMNS m + col) imageBuffer))
           = fillCalls s @ [(transformKeyIndex m (row * KEY_COLUMNS m + col), 0, get_ICON_SIZE m * 3)]
       \<and> fillCalls (snd (fillColor m s (row * KEY_COLUMNS m + col) r g b))
           = fillCalls s @ [(transformKeyIndex m (row * KEY_COLUMNS m + col), 0, get_ICON_SIZE m * 3)]
       \<and> (\<forall>t. fillPanel (m\<lparr>transformKeyIndex := t\<rparr>) s panelBuffer = fillPanel m s panelBuffer)
       \<and> (\<exists>n. 1 \<le> n \<and> n \<le> nat (NUM_KEYS m)
               \<and> fillCalls (snd (fillPanel m s panelBuffer))
                   = fillCalls s @ take n (expectedPanelFills m))
       \<and> fst (fillCalls (snd (fillPanel m s panelBuffer)) ! length (fillCalls s))
           = (if KEY_DIRECTION (deviceProperties m) = ltr then 0 else KEY_COLUMNS m - 1)
       \<and> (fst (fillPanel m s panelBuffer) = Resolved () \<longrightarrow>
            fillCalls (snd (fillPanel m s panelBuffer)) = fillCalls s @ expectedPanelFills m)
       \<and> (length (fillCalls s) + nat (row * KEY_COLUMNS m + col)
             < length (fillCalls (snd (fillPanel m s panelBuffer))) \<longrightarrow>
            fst (fillCalls (snd (fillPanel m s panelBuffer))
                   ! (length (fillCalls s) + nat (row * KEY_COLUMNS m + col)))
              = (if KEY_DIRECTION (deviceProperties m) = ltr then row * KEY_COLUMNS m + col
                 else row * KEY_COLUMNS m + (KEY_COLUMNS m - 1 - col))
            \<and> (transformKeyIndex m (row * KEY_COLUMNS m + col)
                  \<noteq> (if KEY_DIRECTION (deviceProperties m) = ltr then row * KEY_COLUMNS m + col
                      else row * KEY_COLUMNS m + (KEY_COLUMNS m - 1 - col))
                \<longrightarrow> fst (last (fillCalls (snd (fillImage m s (row * KEY_COLUMNS m + col) imageBuffer))))
                      \<noteq> fst (fillCalls (snd (fillPanel m s panelBuffer))
                               ! (length (fillCalls s) + nat (row * KEY_COLUMNS m + col)))))"
proof -
  let ?k = "row * KEY_COLUMNS m + col"
  let ?d = "if KEY_DIRECTION (deviceProperties m) = ltr then row * KEY_COLUMNS m + col
            else row * KEY_COLUMNS m + (KEY_COLUMNS m - 1 - col)"
  let ?E = "expectedPanelFills m"
  let ?P = "fillCalls (snd (fillPanel m s panelBuffer))"
  have k: "0 \<le> ?k \<and> ?k < NUM_KEYS m" using assms(1-4) by (rule cell_key_range)
  have a: "fillCalls (snd (fillImage m s ?k imageBuffer))
           = fillCalls s @ [(transformKeyIndex m ?k, 0, get_ICON_SIZE m * 3)]"
    using k assms(5) by (intro fillImage_fillCalls) simp_all
  have b: "fillCalls (snd (fillColor m s ?k r g b))
           = fillCalls s @ [(transformKeyIndex m ?k, 0, get_ICON_SIZE m * 3)]"
    using k assms(7) by (intro fillColor_fillCalls) simp_all
  have c: "\<forall>t. fillPanel (m\<lparr>transformKeyIndex := t\<rparr>) s panelBuffer = fillPanel m s panelBuffer"
    by (simp add: fillPanel_transform)
  have run: "fillPanel m s panelBuffer = runFills m s panelBuffer ?E"
    using assms(6) by (rule fillPanel_runFills)
  have len: "length ?E = nat (NUM_KEYS m)"
    using assms(1-4) by (intro length_expectedPanelFills) simp_all
  with k have ne: "?E \<noteq> []" by auto
  from runFills_trace[of ?E m s panelBuffer] run ne obtain n where
      n: "n \<le> length ?E" "?P = fillCalls s @ take n ?E" "1 \<le> n"
         "fst (fillPanel m s panelBuffer) = Resolved () \<longrightarrow> n = length ?E"
    by auto
  from n len have d: "\<exists>n. 1 \<le> n \<and> n \<le> nat (NUM_KEYS m) \<and> ?P = fillCalls s @ take n ?E"
    by auto
  have cell: "\<And>i. i < n \<Longrightarrow> ?P ! (length (fillCalls s) + i) = ?E ! i"
    using n(1,2) by (simp add: nth_append)
  have lenP: "length ?P = length (fillCalls s) + n" using n(1,2) by simp
  have z: "0 < KEY_ROWS m" "0 < KEY_COLUMNS m" using assms(1-4) by simp_all
  have "?E ! nat (0 * KEY_COLUMNS m + 0) = panelCell m 0 0"
    using z by (intro nth_expectedPanelFills) simp_all
  then have "fst (?E ! 0) = (if KEY_DIRECTION (deviceProperties m) = ltr then 0 else KEY_COLUMNS m - 1)"
    by (simp add: panelCell_def panelKeyIndex_def)
  moreover have "?P ! (length (fillCalls s) + 0) = ?E ! 0" using n(3) by (intro cell) simp
  ultimately have e: "fst (?P ! length (fillCalls s))
           = (if KEY_DIRECTION (deviceProperties m) = ltr then 0 else KEY_COLUMNS m - 1)"
    by simp
  have f: "fst (fillPanel m s panelBuffer) = Resolved () \<longrightarrow> ?P = fillCalls s @ ?E"
    using n(2,4) by simp
  have Ek: "fst (?E ! nat ?k) = ?d"
    using assms(1-4) by (simp add: nth_expectedPanelFills panelCell_def panelKeyIndex_def)
  have fi: "fst (last (fillCalls (snd (fillImage m s ?k imageBuffer)))) = transformKeyIndex m ?k"
    by (simp add: a)
  have g: "length (fillCalls s) + nat ?k < length ?P \<longrightarrow>
             fst (?P ! (length (fillCalls s) + nat ?k)) = ?d
             \<and> (transformKeyIndex m ?k \<noteq> ?d \<longrightarrow>
                  fst (last (fillCalls (snd (fillImage m s ?k imageBuffer))))
                    \<noteq> fst (?P ! (length (fillCalls s) + nat ?k)))"
  proof
    assume "length (fillCalls s) + nat ?k < length ?P"
    with lenP have "nat ?k < n" by simp
    then have "?P ! (length (fillCalls s) + nat ?k) = ?E ! nat ?k" by (rule cell)
    with Ek have "fst (?P ! (length (fillCalls s) + nat ?k)) = ?d" by simp
    with fi show "fst (?P ! (length (fillCalls s) + nat ?k)) = ?d
             \<and> (transformKeyIndex m ?k \<noteq> ?d \<longrightarrow>
                  fst (last (fillCalls (snd (fillImage m s ?k imageBuffer))))
                    \<noteq> fst (?P ! (length (fillCalls s) + nat ?k)))"
      by simp
  qed
  from a b c d e f g show ?thesis by (intro conjI)
qed

text \<open>C10 on the small model with the identity as key transform: \<open>fillPanel\<close> resolves
  after the six mirrored fills, the same as with the mirroring transform, and at position
  (0, 0) \<open>fillImage\<close> addresses key 0 and \<open>fillPanel\<close> key 2.\<close>

theorem C10_fillPanel_bypasses_transform_witness:
  "fst (fillPanel (demo_model\<lparr>transformKeyIndex := (\<lambda>k. k)\<rparr>) demo_state (replicate 18 7)) = Resolved ()
   \<and> fillCalls (snd (fillPanel (demo_model\<lparr>transformKeyIndex := (\<lambda>k. k)\<rparr>) demo_state (replicate 18 7)))
       = [(2, 0, 9), (1, 3, 9), (0, 6, 9), (5, 9, 9), (4, 12, 9), (3, 15, 9)]
   \<and> fillPanel (demo_model\<lparr>transformKeyIndex := (\<lambda>k. k)\<rparr>) demo_state (replicate 18 7)
       = fillPanel demo_model demo_state (replicate 18 7)
   \<and> fillCalls (snd (fillImage (demo_model\<lparr>transformKeyIndex := (\<lambda>k. k)\<rparr>) demo_state 0 [1, 2, 3]))
       = [(0, 0, 3)]
   \<and> fillCalls (snd (fillColor (demo_model\<lparr>transformKeyIndex := (\<lambda>k. k)\<rparr>) demo_state 0 1 2 3))
       = [(0, 0, 3)]
   \<and> fst (fillCalls (snd (fillPanel (demo_model\<lparr>transformKeyIndex := (\<lambda>k. k)\<rparr>) demo_state
                             (replicate 18 7))) ! 0) = 2
   \<and> fst (last (fillCalls (snd (fillImage (demo_model\<lparr>transformKeyIndex := (\<lambda>k. k)\<rparr>)
                                   demo_state 0 [1, 2, 3]))))
       \<noteq> fst (fillCalls (snd (fillPanel (demo_model\<lparr>transformKeyIndex := (\<lambda>k. k)\<rparr>) demo_state
                                 (replicate 18 7))) ! 0)"
proof -
  let ?M = "demo_model\<lparr>transformKeyIndex := (\<lambda>k. k)\<rparr>"
  let ?P = "fillCalls (snd (fillPanel ?M demo_state (replicate 18 7)))"
  have M: "KEY_ROWS ?M = 2" "KEY_COLUMNS ?M = 3" "ICON_BYTES ?M = 3" "NUM_KEYS ?M = 6"
          "get_ICON_SIZE ?M = 1" "KEY_DIRECTION (deviceProperties ?M) = rtl"
          "transformKeyIndex ?M 0 = 0"
    by (simp_all add: NUM_KEYS_def KEY_COLUMNS_def KEY_ROWS_def ICON_BYTES_def get_ICON_SIZE_def
          demo_model_def demo_properties_def)
  note c10 = C10_fillPanel_bypasses_transform[of 0 ?M 0 "[1, 2, 3]" "replicate 18 7" 1 2 3 demo_state]
  have h: "0 \<le> (0::int)" "(0::int) < KEY_ROWS ?M" "(0::int) < KEY_COLUMNS ?M"
          "int (length [1, 2, 3 :: byte]) = ICON_BYTES ?M"
          "int (length (replicate 18 (7::byte))) = ICON_BYTES ?M * NUM_KEYS ?M"
          "0 \<le> (1::int) \<and> (1::int) \<le> 255 \<and> 0 \<le> (2::int) \<and> (2::int) \<le> 255 \<and> 0 \<le> (3::int) \<and> (3::int) \<le> 255"
    by (simp_all add: M)
  note c = c10[OF h(1) h(2) h(1) h(3) h(4) h(5) h(6)]
  have s0: "fillCalls demo_state = []" by (simp add: demo_state_def)
  have e: "expectedPanelFills ?M
             = [(2, 0, 9), (1, 3, 9), (0, 6, 9), (5, 9, 9), (4, 12, 9), (3, 15, 9)]"
    by code_simp
  have res: "fst (fillPanel ?M demo_state (replicate 18 7)) = Resolved ()"
    by code_simp
  from c have "fst (fillPanel ?M demo_state (replicate 18 7)) = Resolved () \<longrightarrow>
            ?P = fillCalls demo_state @ expectedPanelFills ?M"
    by (elim conjE)
  with res have p: "?P = [(2, 0, 9), (1, 3, 9), (0, 6, 9), (5, 9, 9), (4, 12, 9), (3, 15, 9)]"
    by (simp only: e) (simp add: s0)
  from c have "\<forall>t. fillPanel (?M\<lparr>transformKeyIndex := t\<rparr>) demo_state (replicate 18 7)
                 = fillPanel ?M demo_state (replicate 18 7)"
    by (elim conjE)
  then have "fillPanel (?M\<lparr>transformKeyIndex := transformKeyIndex demo_model\<rparr>) demo_state (replicate 18 7)
                 = fillPanel ?M demo_state (replicate 18 7)"
    by (rule spec)
  then have t: "fillPanel ?M demo_state (replicate 18 7) = fillPanel demo_model demo_state (replicate 18 7)"
    by simp
  from c have "fillCalls (snd (fillImage ?M demo_state (0 * KEY_COLUMNS ?M + 0) [1, 2, 3]))
           = fillCalls demo_state @ [(transformKeyIndex ?M (0 * KEY_COLUMNS ?M + 0), 0, get_ICON_SIZE ?M * 3)]"
    by (elim conjE)
  then have a: "fillCalls (snd (fillImage ?M demo_state 0 [1, 2, 3])) = [(0, 0, 3)]"
    by (simp add: M s0)
  from c have "fillCalls (snd (fillColor ?M demo_state (0 * KEY_COLUMNS ?M + 0) 1 2 3))
           = fillCalls demo_state @ [(transformKeyIndex ?M (0 * KEY_COLUMNS ?M + 0), 0, get_ICON_SIZE ?M * 3)]"
    by (elim conjE)
  then have b: "fillCalls (snd (fillColor ?M demo_state 0 1 2 3)) = [(0, 0, 3)]"
    by (simp add: M s0)
  from c have "fst (?P ! length (fillCalls demo_state))
           = (if KEY_DIRECTION (deviceProperties ?M) = ltr then 0 else KEY_COLUMNS ?M - 1)"
    by (elim conjE)
  then have d: "fst (?P ! 0) = 2"
    using M(6) by (simp add: M(2) s0)
  from c have "length (fillCalls demo_state) + nat (0 * KEY_COLUMNS ?M + 0) < length ?P \<longrightarrow>
            fst (?P ! (length (fillCalls demo_state) + nat (0 * KEY_COLUMNS ?M + 0)))
              = (if KEY_DIRECTION (deviceProperties ?M) = ltr then 0 * KEY_COLUMNS ?M + 0
                 else 0 * KEY_COLUMNS ?M + (KEY_COLUMNS ?M - 1 - 0))
            \<and> (transformKeyIndex ?M (0 * KEY_COLUMNS ?M + 0)
                  \<noteq> (if KEY_DIRECTION (deviceProperties ?M) = ltr then 0 * KEY_COLUMNS ?M + 0
                      else 0 * KEY_COLUMNS ?M + (KEY_COLUMNS ?M - 1 - 0))
                \<longrightarrow> fst (last (fillCalls (snd (fillImage ?M demo_state (0 * KEY_COLUMNS ?M + 0) [1, 2, 3]))))
                      \<noteq> fst (?P ! (length (fillCalls demo_state) + nat (0 * KEY_COLUMNS ?M + 0))))"
    by (elim conjE)
  moreover have "length (fillCalls demo_state) + nat (0 * KEY_COLUMNS ?M + 0) < length ?P"
    by (simp only: p) (simp add: s0)
  ultimately have f: "fst (last (fillCalls (snd (fillImage ?M demo_state 0 [1, 2, 3])))) \<noteq> fst (?P ! 0)"
    using M(6) by (simp add: M(2) M(7) s0)
  from res p t a b d f show ?thesis by (intro conjI)
qed

section \<open>Properties of the press state\<close>

subsection \<open>The public operations leave it alone\<close>

lemma fillColor_frame: "keyState (snd (fillColor m s k r g b)) = keyState s"
  by (simp add: fillColor_def fillImageRange_frame split: sum.splits)

lemma fillImage_frame: "keyState (snd (fillImage m s k buf)) = keyState s"
  by (simp add: fillImage_def fillImageRange_frame split: sum.splits)

lemma clearKey_frame: "keyState (snd (clearKey m s k)) = keyState s"
  by (simp add: clearKey_def fillColor_frame split: sum.splits)

lemma fillPanel_frame: "keyState (snd (fillPanel m s buf)) = keyState s"
  by (simp add: fillPanel_def fillPanel_rows_runFills runFills_frame)

lemma clearAllKeys_loop_frame:
  "keyState (snd (clearAllKeys_loop m s keyIndex)) = keyState s"
proof (induction "nat (NUM_KEYS m - keyIndex)" arbitrary: s keyIndex)
  case 0
  then have "\<not> keyIndex < NUM_KEYS m" by simp
  then show ?case by (subst clearAllKeys_loop.simps) simp
next
  case (Suc n)
  then have lt: "keyIndex < NUM_KEYS m" by simp
  obtain c s' where r: "clearKey m s keyIndex = (c, s')" by (cases "clearKey m s keyIndex")
  then have f: "keyState s' = keyState s" using clearKey_frame[of m s keyIndex] by simp
  have IH: "keyState (snd (clearAllKeys_loop m s' (keyIndex + 1))) = keyState s'"
    using Suc(2) by (intro Suc(1)) simp
  show ?case
    using lt r f IH by (subst clearAllKeys_loop.simps) (cases c; simp)
qed

lemma clearAllKeys_frame: "keyState (snd (clearAllKeys m s)) = keyState s"
  by (simp add: clearAllKeys_def clearAllKeys_loop_frame)

lemma control_frame:
  "keyState (snd (setBrightness m s percentage)) = keyState s"
  "keyState (snd (resetToLogo m s)) = keyState s"
  "keyState (snd (getFirmwareVersion m s)) = keyState s"
  "keyState (snd (getSerialNumber m s)) = keyState s"
  "keyState (snd (close m s)) = keyState s"
  by (simp_all add: setBrightness_def resetToLogo_def getFirmwareVersion_def getSerialNumber_def
        getFeatureReport_def close_def device_call_def Let_def)

subsection \<open>What the tracker changes\<close>

lemma input_loop_step:
  "i < NUM_KEYS m \<Longrightarrow>
   input_loop m data i ks emitted =
     (if Some (keyPressed_at data i) \<noteq> ks (transformKeyIndex m i) then
        input_loop m data (i + 1) (ks(transformKeyIndex m i \<mapsto> keyPressed_at data i))
          (emitted @ [if keyPressed_at data i then down (transformKeyIndex m i)
                      else up (transformKeyIndex m i)])
      else input_loop m data (i + 1) ks emitted)"
  by (subst input_loop.simps) (simp add: Let_def)

lemma input_loop_changes:
  "\<exists>new. snd (input_loop m data i ks emitted) = emitted @ new
     \<and> (\<forall>k. fst (input_loop m data i ks emitted) k \<noteq> ks k \<longrightarrow>
            (\<exists>l. i \<le> l \<and> l < NUM_KEYS m \<and> k = transformKeyIndex m l)
          \<and> (down k \<in> set new \<or> up k \<in> set new))"
proof (induction "nat (NUM_KEYS m - i)" arbitrary: i ks emitted)
  case 0
  then have "\<not> i < NUM_KEYS m" by simp
  then have "input_loop m data i ks emitted = (ks, emitted)"
    by (subst input_loop.simps) simp
  then show ?case by simp
next
  case (Suc n)
  then have lt: "i < NUM_KEYS m" by simp
  let ?k = "transformKeyIndex m i"
  let ?p = "keyPressed_at data i"
  let ?e = "if ?p then down ?k else up ?k"
  have n: "n = nat (NUM_KEYS m - (i + 1))" using Suc(2) by simp
  show ?case
  proof (cases "Some ?p \<noteq> ks ?k")
    case False
    then have eq: "input_loop m data i ks emitted = input_loop m data (i + 1) ks emitted"
      using lt by (simp add: input_loop_step)
    from Suc(1)[OF n, of ks emitted]
    obtain new where new: "snd (input_loop m data (i + 1) ks emitted) = emitted @ new"
      "\<forall>k. fst (input_loop m data (i + 1) ks emitted) k \<noteq> ks k \<longrightarrow>
            (\<exists>l. i + 1 \<le> l \<and> l < NUM_KEYS m \<and> k = transformKeyIndex m l)
          \<and> (down k \<in> set new \<or> up k \<in> set new)"
      by blast
    have "\<forall>k. fst (input_loop m data (i + 1) ks emitted) k \<noteq> ks k \<longrightarrow>
            (\<exists>l. i \<le> l \<and> l < NUM_KEYS m \<and> k = transformKeyIndex m l)
          \<and> (down k \<in> set new \<or> up k \<in> set new)"
    proof (intro allI impI)
      fix k assume "fst (input_loop m data (i + 1) ks emitted) k \<noteq> ks k"
      with new(2) obtain l where "i + 1 \<le> l" "l < NUM_KEYS m" "k = transformKeyIndex m l"
        and ev: "down k \<in> set new \<or> up k \<in> set new" by blast
      then have "i \<le> l \<and> l < NUM_KEYS m \<and> k = transformKeyIndex m l" by simp
      with ev show "(\<exists>l. i \<le> l \<and> l < NUM_KEYS m \<and> k = transformKeyIndex m l)
          \<and> (down k \<in> set new \<or> up k \<in> set new)" by blast
    qed
    with new(1) show ?thesis unfolding eq by blast
  next
    case True
    let ?ks = "ks(?k \<mapsto> ?p)"
    have eq: "input_loop m data i ks emitted = input_loop m data (i + 1) ?ks (emitted @ [?e])"
      using lt True by (simp add: input_loop_step)
    from Suc(1)[OF n, of ?ks "emitted @ [?e]"]
    obtain new where new: "snd (input_loop m data (i + 1) ?ks (emitted @ [?e])) = (emitted @ [?e]) @ new"
      "\<forall>k. fst (input_loop m data (i + 1) ?ks (emitted @ [?e])) k \<noteq> ?ks k \<longrightarrow>
            (\<exists>l. i + 1 \<le> l \<and> l < NUM_KEYS m \<and> k = transformKeyIndex m l)
          \<and> (down k \<in> set new \<or> up k \<in> set new)"
      by blast
    have a: "snd (input_loop m data (i + 1) ?ks (emitted @ [?e])) = emitted @ (?e # new)"
      using new(1) by simp
    have b: "\<forall>k. fst (input_loop m data (i + 1) ?ks (emitted @ [?e])) k \<noteq> ks k \<longrightarrow>
            (\<exists>l. i \<le> l \<and> l < NUM_KEYS m \<and> k = transformKeyIndex m l)
          \<and> (down k \<in> set (?e # new) \<or> up k \<in> set (?e # new))"
    proof (intro allI impI)
      fix k assume ch: "fst (input_loop m data (i + 1) ?ks (emitted @ [?e])) k \<noteq> ks k"
      show "(\<exists>l. i \<le> l \<and> l < NUM_KEYS m \<and> k = transformKeyIndex m l)
          \<and> (down k \<in> set (?e # new) \<or> up k \<in> set (?e # new))"
      proof (cases "k = ?k")
        case True
        have "i \<le> i \<and> i < NUM_KEYS m \<and> k = transformKeyIndex m i" using lt True by simp
        then have "\<exists>l. i \<le> l \<and> l < NUM_KEYS m \<and> k = transformKeyIndex m l" by blast
        moreover have "down k \<in> set (?e # new) \<or> up k \<in> set (?e # new)" using True by simp
        ultimately show ?thesis by blast
      next
        case False
        then have "?ks k = ks k" by simp
        with ch have "fst (input_loop m data (i + 1) ?ks (emitted @ [?e])) k \<noteq> ?ks k" by simp
        with new(2) obtain l where "i + 1 \<le> l" "l < NUM_KEYS m" "k = transformKeyIndex m l"
          and ev: "down k \<in> set new \<or> up k \<in> set new" by blast
        then have "i \<le> l \<and> l < NUM_KEYS m \<and> k = transformKeyIndex m l" by simp
        then have "\<exists>l. i \<le> l \<and> l < NUM_KEYS m \<and> k = transformKeyIndex m l" by blast
        moreover have "down k \<in> set (?e # new) \<or> up k \<in> set (?e # new)" using ev by auto
        ultimately show ?thesis by blast
      qed
    qed
    from a b show ?thesis unfolding eq by blast
  qed
qed

lemma input_loop_dom:
  "(\<And>l. i \<le> l \<Longrightarrow> l < NUM_KEYS m \<Longrightarrow> transformKeyIndex m l \<in> dom ks) \<Longrightarrow>
   dom (fst (input_loop m data i ks emitted)) = dom ks"
proof (induction "nat (NUM_KEYS m - i)" arbitrary: i ks emitted)
  case 0
  then have "\<not> i < NUM_KEYS m" by simp
  then have "input_loop m data i ks emitted = (ks, emitted)"
    by (subst input_loop.simps) simp
  then show ?case by simp
next
  case (Suc n)
  then have lt: "i < NUM_KEYS m" by simp
  let ?k = "transformKeyIndex m i"
  let ?p = "keyPressed_at data i"
  have k: "?k \<in> dom ks" using Suc(3)[of i] lt by simp
  show ?case
  proof (cases "Some ?p \<noteq> ks ?k")
    case False
    then have eq: "input_loop m data i ks emitted = input_loop m data (i + 1) ks emitted"
      using lt by (simp add: input_loop_step)
    show ?thesis unfolding eq using Suc(2) Suc(3) by (intro Suc(1)) simp_all
  next
    case True
    let ?ks = "ks(?k \<mapsto> ?p)"
    let ?ev = "emitted @ [if ?p then down ?k else up ?k]"
    have eq: "input_loop m data i ks emitted = input_loop m data (i + 1) ?ks ?ev"
      using lt True by (simp add: input_loop_step)
    have d: "dom ?ks = dom ks" using k by auto
    have "dom (fst (input_loop m data (i + 1) ?ks ?ev)) = dom ?ks"
      using Suc(2) Suc(3) by (intro Suc(1)) (simp_all add: d del: dom_fun_upd)
    then show ?thesis unfolding eq d .
  qed
qed


lemma onInput_parts:
  "fst (onInput m s data) = snd (input_loop m data 0 (keyState s) [])"
  "keyState (snd (onInput m s data)) = fst (input_loop m data 0 (keyState s) [])"
  by (simp_all add: onInput_def split: prod.splits)

lemma StreamDeckBase_new_ok:
  assumes "0 \<le> NUM_KEYS m"
  shows "\<exists>s0. StreamDeckBase_new m offset = Inr s0 \<and> dom (keyState s0) = {0..<NUM_KEYS m}
            \<and> (\<forall>k. 0 \<le> k \<and> k < NUM_KEYS m \<longrightarrow> keyState s0 k = Some False)"
  using assms by (auto simp: StreamDeckBase_new_def dom_def)

lemma onInput_changes:
  "\<forall>j. keyState (snd (onInput m s data)) j \<noteq> keyState s j \<longrightarrow>
         (\<exists>i. 0 \<le> i \<and> i < NUM_KEYS m \<and> j = transformKeyIndex m i)
         \<and> (down j \<in> set (fst (onInput m s data)) \<or> up j \<in> set (fst (onInput m s data)))"
  using input_loop_changes[of m data 0 "keyState s" "[]"] by (simp add: onInput_parts)

lemma onInput_dom:
  assumes "\<forall>i. 0 \<le> i \<and> i < NUM_KEYS m \<longrightarrow>
             0 \<le> transformKeyIndex m i \<and> transformKeyIndex m i < NUM_KEYS m"
      and "dom (keyState s) = {0..<NUM_KEYS m}"
  shows "dom (keyState (snd (onInput m s data))) = {0..<NUM_KEYS m}"
proof -
  have "dom (fst (input_loop m data 0 (keyState s) [])) = dom (keyState s)"
    using assms by (intro input_loop_dom) simp
  with assms(2) show ?thesis by (simp add: onInput_parts)
qed

text \<open>
  Claim C9: the constructor (for a key count that is not negative) leaves \<open>keyState\<close>
  with exactly the indices \<open>0, \<dots>, numKeys - 1\<close>, all false; each public operation
  (\<open>fillColor\<close>, \<open>fillImage\<close>, \<open>fillPanel\<close>, \<open>clearKey\<close>, \<open>clearAllKeys\<close>,
  \<open>setBrightness\<close>, \<open>resetToLogo\<close>, \<open>getFirmwareVersion\<close>, \<open>getSerialNumber\<close>,
  \<open>close\<close>) leaves \<open>keyState\<close> as it was; the input handler changes an entry only at a
  transformed native index and only together with a \<open>down\<close> or \<open>up\<close> event for that
  index; and with a key transform that maps \<open>[0, numKeys)\<close> into itself the handler keeps
  the indices of \<open>keyState\<close>, hence its length.
\<close>

theorem C9_keyState_frame:
  "(0 \<le> NUM_KEYS m \<longrightarrow>
      (\<exists>s0. StreamDeckBase_new m offset = Inr s0 \<and> dom (keyState s0) = {0..<NUM_KEYS m}
            \<and> (\<forall>k. 0 \<le> k \<and> k < NUM_KEYS m \<longrightarrow> keyState s0 k = Some False)))
   \<and> keyState (snd (fillColor m s k r g b)) = keyState s
   \<and> keyState (snd (fillImage m s k imageBuffer)) = keyState s
   \<and> keyState (snd (fillPanel m s panelBuffer)) = keyState s
   \<and> keyState (snd (clearKey m s k)) = keyState s
   \<and> keyState (snd (clearAllKeys m s)) = keyState s
   \<and> keyState (snd (setBrightness m s percentage)) = keyState s
   \<and> keyState (snd (resetToLogo m s)) = keyState s
   \<and> keyState (snd (getFirmwareVersion m s)) = keyState s
   \<and> keyState (snd (getSerialNumber m s)) = keyState s
   \<and> keyState (snd (close m s)) = keyState s
   \<and> (\<forall>j. keyState (snd (onInput m s data)) j \<noteq> keyState s j \<longrightarrow>
         (\<exists>i. 0 \<le> i \<and> i < NUM_KEYS m \<and> j = transformKeyIndex m i)
         \<and> (down j \<in> set (fst (onInput m s data)) \<or> up j \<in> set (fst (onInput m s data))))
   \<and> ((\<forall>i. 0 \<le> i \<and> i < NUM_KEYS m \<longrightarrow>
           0 \<le> transformKeyIndex m i \<and> transformKeyIndex m i < NUM_KEYS m)
        \<and> dom (keyState s) = {0..<NUM_KEYS m}
      \<longrightarrow> dom (keyState (snd (onInput m s data))) = {0..<NUM_KEYS m})"
  using StreamDeckBase_new_ok[of m offset] onInput_changes[of m s data] onInput_dom[of m s data]
  by (simp only: fillColor_frame fillImage_frame fillPanel_frame clearKey_frame
        clearAllKeys_frame control_frame) blast

text \<open>C9 on the small model.\<close>

theorem C9_keyState_frame_witness:
  "0 \<le> NUM_KEYS demo_model
   \<and> (\<exists>s0. StreamDeckBase_new demo_model 0 = Inr s0 \<and> dom (keyState s0) = {0..<6})
   \<and> keyState (snd (fillColor demo_model demo_state 1 2 3 4)) = keyState demo_state
   \<and> keyState (snd (fillPanel demo_model demo_state (replicate 18 7))) = keyState demo_state
   \<and> keyState (snd (clearAllKeys demo_model demo_state)) = keyState demo_state
   \<and> keyState (snd (setBrightness demo_model demo_state 50)) = keyState demo_state
   \<and> dom (keyState demo_state) = {0..<6}
   \<and> dom (keyState (snd (onInput demo_model demo_state [0, 0, 1, 0, 0, 0]))) = {0..<6}"
proof -
  note c9 = C9_keyState_frame[of demo_model 0 demo_state 1 2 3 4 "[]" "replicate 18 7" 50
              "[0, 0, 1, 0, 0, 0]"]
  have N: "0 \<le> NUM_KEYS demo_model" by (simp add: demo_facts)
  have t: "\<forall>i. 0 \<le> i \<and> i < NUM_KEYS demo_model \<longrightarrow>
             0 \<le> transformKeyIndex demo_model i \<and> transformKeyIndex demo_model i < NUM_KEYS demo_model"
  proof (intro allI impI)
    fix i :: int
    assume "0 \<le> i \<and> i < NUM_KEYS demo_model"
    then have "i = 0 \<or> i = 1 \<or> i = 2 \<or> i = 3 \<or> i = 4 \<or> i = 5"
      using six_cases[of i] by (simp add: demo_facts(1))
    then show "0 \<le> transformKeyIndex demo_model i \<and> transformKeyIndex demo_model i < NUM_KEYS demo_model"
      by (elim disjE) (simp_all add: demo_transform_values demo_facts(1))
  qed
  have d: "dom (keyState demo_state) = {0..<NUM_KEYS demo_model}"
    by (auto simp: demo_state_def demo_facts(1) dom_def)
  from c9 N have a: "\<exists>s0. StreamDeckBase_new demo_model 0 = Inr s0 \<and> dom (keyState s0) = {0..<6}"
    by (auto simp: demo_facts(1))
  from c9 have b: "keyState (snd (fillColor demo_model demo_state 1 2 3 4)) = keyState demo_state"
    by (elim conjE)
  from c9 have c: "keyState (snd (fillPanel demo_model demo_state (replicate 18 7))) = keyState demo_state"
    by (elim conjE)
  from c9 have e: "keyState (snd (clearAllKeys demo_model demo_state)) = keyState demo_state"
    by (elim conjE)
  from c9 have f: "keyState (snd (setBrightness demo_model demo_state 50)) = keyState demo_state"
    by (elim conjE)
  from c9 have "(\<forall>i. 0 \<le> i \<and> i < NUM_KEYS demo_model \<longrightarrow>
           0 \<le> transformKeyIndex demo_model i \<and> transformKeyIndex demo_model i < NUM_KEYS demo_model)
        \<and> dom (keyState demo_state) = {0..<NUM_KEYS demo_model}
      \<longrightarrow> dom (keyState (snd (onInput demo_model demo_state [0, 0, 1, 0, 0, 0]))) = {0..<NUM_KEYS demo_model}"
    by (elim conjE)
  with t d have g: "dom (keyState (snd (onInput demo_model demo_state [0, 0, 1, 0, 0, 0]))) = {0..<6}"
    by (simp add: demo_facts(1))
  from d have d': "dom (keyState demo_state) = {0..<6}" by (simp add: demo_facts(1))
  from N a b c e f d' g show ?thesis by (intro conjI)
qed

end
